theory Spec2Isabelle
  imports Main "HOL-Library.AList" "HOL-Library.Multiset"
begin

section \<open>Job and process control (src/jobs/controller.py)\<close>

text \<open>
  A shallow embedding of the classes \<open>JobStatus\<close>, \<open>Job\<close>, \<open>Pipeline\<close> and
  \<open>ProcessController\<close>. Python dictionaries keep insertion order, so they are
  association lists handled with \<open>map_of\<close> (lookup), \<open>AList.update\<close> (item assignment:
  an existing key keeps its position, a new key goes to the end) and \<open>AList.delete\<close>.
  Objects mutated in place (jobs, pipelines, the shared context) are passed in and returned
  updated. An exception is a value: every function that can raise returns an \<open>outcome\<close>
  together with the state as it is at that moment.
\<close>

subsection \<open>Values, exceptions, the clock\<close>

datatype pyval =
    VNone
  | VBool bool
  | VInt int
  | VStr string
  | VList "pyval list"
  | VDict "(string \<times> pyval) list"

type_synonym pydict = "(string \<times> pyval) list"

text \<open>
  An instance of Python's \<open>Exception\<close>: its class name and what \<open>str(e)\<close> gives.
  Signals outside \<open>Exception\<close> (\<open>KeyboardInterrupt\<close>, \<open>SystemExit\<close>) end the process
  and are not part of the model.
\<close>

datatype py_exception = PyException (exc_class: string) (exc_str: string)

datatype 'a outcome = Return 'a | Raise py_exception

definition quote :: "string \<Rightarrow> string" where
  "quote s = CHR 0x27 # s @ [CHR 0x27]"

definition ValueError :: "string \<Rightarrow> py_exception" where
  "ValueError msg = PyException ''ValueError'' msg"

definition KeyError :: "string \<Rightarrow> py_exception" where
  "KeyError k = PyException ''KeyError'' (quote k)"

text \<open>
  \<open>datetime.now()\<close> reads the system clock. The world holds the sequence of readings
  (microseconds, in no particular order: a system clock can be set back) and how many
  have been consumed.
\<close>

record world =
  clock :: "nat \<Rightarrow> int"
  reads :: nat

definition datetime_now :: "world \<Rightarrow> int \<times> world" where
  "datetime_now w = (clock w (reads w), w\<lparr>reads := Suc (reads w)\<rparr>)"

subsection \<open>Binary floating point\<close>

text \<open>
  \<open>timedelta.total_seconds()\<close> is the correctly rounded quotient of two integers and
  \<open>total_duration += duration\<close> is a float addition. A float is a pair of a mantissa and an
  exponent, \<open>Double m e\<close> standing for \<open>m * 2 ^ e\<close>, with \<open>2 ^ 52 \<le> \<bar>m\<bar> < 2 ^ 53\<close> or
  \<open>m = 0 \<and> e = 0\<close>; results are rounded to nearest, ties to even. The exponent is not
  bounded: durations between two \<open>datetime\<close> values and their sums stay far from the
  overflow and underflow thresholds of binary64.
\<close>

datatype double = Double (mantissa: int) (exponent: int)

fun bit_length :: "nat \<Rightarrow> nat" where
  "bit_length n = (if n = 0 then 0 else Suc (bit_length (n div 2)))"

declare bit_length.simps [simp del]

definition round_half_even :: "int \<Rightarrow> int \<Rightarrow> int" where
  "round_half_even num den =
     (let q = num div den; r = num mod den
      in if 2 * r > den \<or> (2 * r = den \<and> odd q) then q + 1 else q)"

definition renormalize :: "int \<Rightarrow> int \<Rightarrow> double" where
  "renormalize m e = (if \<bar>m\<bar> = 2 ^ 53 then Double (m div 2) (e + 1) else Double m e)"

definition round_scaled :: "int \<Rightarrow> int \<Rightarrow> double" where
  "round_scaled M E =
     (if M = 0 then Double 0 0
      else let n = bit_length (nat \<bar>M\<bar>)
           in if n \<le> 53 then Double (M * 2 ^ (53 - n)) (E - int (53 - n))
              else renormalize (sgn M * round_half_even \<bar>M\<bar> (2 ^ (n - 53))) (E + int (n - 53)))"

definition fadd :: "double \<Rightarrow> double \<Rightarrow> double" where
  "fadd a b =
     (let E = min (exponent a) (exponent b)
      in round_scaled (mantissa a * 2 ^ nat (exponent a - E) + mantissa b * 2 ^ nat (exponent b - E)) E)"

definition true_divide :: "int \<Rightarrow> int \<Rightarrow> double" where
  "true_divide p q =
     (if p = 0 then Double 0 0
      else let a = \<bar>p\<bar>;
               k = int (bit_length (nat a)) - int (bit_length (nat q));
               s0 = 53 - k;
               s = (if a * 2 ^ nat s0 div (q * 2 ^ nat (- s0)) \<ge> 2 ^ 53 then s0 - 1 else s0)
           in renormalize (sgn p * round_half_even (a * 2 ^ nat s) (q * 2 ^ nat (- s))) (- s))"

definition total_seconds :: "int \<Rightarrow> double" where
  "total_seconds microseconds = true_divide microseconds (10 ^ 6)"

subsection \<open>JobStatus and Job\<close>

datatype JobStatus = PENDING | RUNNING | SUCCESS | FAILED | SKIPPED

fun JobStatus_value :: "JobStatus \<Rightarrow> string" where
  "JobStatus_value PENDING = ''pending''"
| "JobStatus_value RUNNING = ''running''"
| "JobStatus_value SUCCESS = ''success''"
| "JobStatus_value FAILED = ''failed''"
| "JobStatus_value SKIPPED = ''skipped''"

definition all_JobStatus :: "JobStatus list" where
  "all_JobStatus = [PENDING, RUNNING, SUCCESS, FAILED, SKIPPED]"

text \<open>
  The callable of a job receives its keyword arguments (the job's \<open>params\<close> with the shared
  context under \<open>'context'\<close>) and the world. It returns a value or raises; since the context
  is passed by reference it also hands back the context as it left it, and the world. It
  always comes back, and it reaches the jobs and the pipeline only through the context.
\<close>

type_synonym callable = "pydict \<Rightarrow> world \<Rightarrow> pyval outcome \<times> pydict \<times> world"

record job =
  name :: string
  func :: callable
  depends_on :: "string list"
  params :: pydict
  status :: JobStatus
  result :: pyval
  error :: "string option"
  start_time :: "int option"
  end_time :: "int option"

definition Job :: "string \<Rightarrow> callable \<Rightarrow> string list option \<Rightarrow> pydict option \<Rightarrow> job" where
  "Job nm f deps ps =
     \<lparr> job.name = nm, func = f,
       depends_on = (case deps of None \<Rightarrow> [] | Some ds \<Rightarrow> ds),
       params = (case ps of None \<Rightarrow> [] | Some d \<Rightarrow> d),
       status = PENDING, result = VNone, error = None,
       start_time = None, end_time = None \<rparr>"

text \<open>The state in which the callable is invoked: status and start time are already set.\<close>

definition execute_start :: "job \<Rightarrow> world \<Rightarrow> job \<times> world" where
  "execute_start self w =
     (let (t, w1) = datetime_now w
      in (self\<lparr>status := RUNNING, start_time := Some t\<rparr>, w1))"

definition execution_params :: "job \<Rightarrow> pydict \<Rightarrow> pydict" where
  "execution_params self ctx = AList.update ''context'' (VDict ctx) (params self)"

definition execute :: "job \<Rightarrow> pydict \<Rightarrow> world \<Rightarrow> pyval outcome \<times> job \<times> pydict \<times> world" where
  "execute self ctx w =
     (let (running, w1) = execute_start self w;
          (out, ctx', w2) = func running (execution_params running ctx) w1;
          (t, w3) = datetime_now w2
      in case out of
           Return v \<Rightarrow>
             (Return v, running\<lparr>result := v, status := SUCCESS, end_time := Some t\<rparr>, ctx', w3)
         | Raise e \<Rightarrow>
             (Raise e, running\<lparr>status := FAILED, error := Some (exc_str e), end_time := Some t\<rparr>,
              ctx', w3))"

definition get_duration :: "job \<Rightarrow> double option" where
  "get_duration self =
     (case (start_time self, end_time self) of
        (Some s, Some e) \<Rightarrow> Some (total_seconds (e - s))
      | _ \<Rightarrow> None)"

subsection \<open>Pipeline\<close>

record pipeline =
  name :: string
  jobs :: "(string \<times> job) list"
  "context" :: pydict

definition Pipeline :: "string \<Rightarrow> pipeline" where
  "Pipeline nm = \<lparr> pipeline.name = nm, jobs = [], context = [] \<rparr>"

definition add_job :: "job \<Rightarrow> pipeline \<Rightarrow> unit outcome \<times> pipeline" where
  "add_job j self =
     (if job.name j \<in> fst ` set (jobs self)
      then (Raise (ValueError (''Job '' @ quote (job.name j) @ '' already exists in pipeline'')), self)
      else (Return (), self\<lparr>jobs := AList.update (job.name j) j (jobs self)\<rparr>))"

definition remove_job :: "string \<Rightarrow> pipeline \<Rightarrow> pipeline" where
  "remove_job job_name self =
     (if job_name \<in> fst ` set (jobs self)
      then self\<lparr>jobs := AList.delete job_name (jobs self)\<rparr> else self)"

text \<open>
  The nested function \<open>visit\<close> of \<open>get_execution_order\<close> with the two variables it
  closes over, the set \<open>visited\<close> and the list \<open>ordered\<close>. The recursion is not bounded by
  anything in the code, so the model counts the nesting depth it is allowed:
  \<open>None\<close> says that the call needs a deeper recursion than that. A call that is
  \<open>None\<close> at every depth never returns.
\<close>

function visit :: "nat \<Rightarrow> (string \<times> job) list \<Rightarrow> string \<Rightarrow> string set \<times> string list
      \<Rightarrow> (string set \<times> string list) outcome option"
  and visit_each :: "nat \<Rightarrow> (string \<times> job) list \<Rightarrow> string list \<Rightarrow> string set \<times> string list
      \<Rightarrow> (string set \<times> string list) outcome option"
where
  "visit 0 js job_name st = None"
| "visit (Suc n) js job_name (visited, ordered) =
     (if job_name \<in> visited then Some (Return (visited, ordered))
      else case map_of js job_name of
        None \<Rightarrow> Some (Raise (ValueError (''Job '' @ quote job_name @ '' not found in pipeline'')))
      | Some j \<Rightarrow>
         (case visit_each n js (depends_on j) (visited, ordered) of
            None \<Rightarrow> None
          | Some (Raise e) \<Rightarrow> Some (Raise e)
          | Some (Return (visited', ordered')) \<Rightarrow>
              Some (Return (insert job_name visited', ordered' @ [job_name]))))"
| "visit_each n js [] st = Some (Return st)"
| "visit_each n js (dep # deps) st =
     (case visit n js dep st of
        None \<Rightarrow> None
      | Some (Raise e) \<Rightarrow> Some (Raise e)
      | Some (Return st') \<Rightarrow> visit_each n js deps st')"
  by pat_completeness auto
termination
  by (relation "inv_image (less_than <*lex*> less_than) (\<lambda>x. case x of
        Inl (n, js, job_name, st) \<Rightarrow> (2 * n, 0)
      | Inr (n, js, names, st) \<Rightarrow> (2 * n + 1, length names))")
    auto

definition get_execution_order :: "nat \<Rightarrow> pipeline \<Rightarrow> string list outcome option" where
  "get_execution_order n self =
     (case visit_each n (jobs self) (map fst (jobs self)) ({}, []) of
        None \<Rightarrow> None
      | Some (Raise e) \<Rightarrow> Some (Raise e)
      | Some (Return (visited, ordered)) \<Rightarrow> Some (Return ordered))"

text \<open>
  The dependency check of \<open>run\<close>: the inner loop that sets \<open>can_run\<close>. Then the
  outer loop over the execution order. The log lines are left out; the one that formats
  the duration cannot fail, since \<open>execute\<close> has set both timestamps by then.
\<close>

fun can_run :: "(string \<times> job) list \<Rightarrow> string list \<Rightarrow> bool outcome" where
  "can_run js [] = Return True"
| "can_run js (dep_name # deps) =
     (case map_of js dep_name of
        None \<Rightarrow> Raise (KeyError dep_name)
      | Some dep_job \<Rightarrow>
          if status dep_job \<noteq> SUCCESS then Return False else can_run js deps)"

definition result_key :: "string \<Rightarrow> string" where
  "result_key job_name = ''job_'' @ job_name @ ''_result''"

fun run_jobs :: "string list \<Rightarrow> pipeline \<Rightarrow> world \<Rightarrow> unit outcome \<times> pipeline \<times> world" where
  "run_jobs [] self w = (Return (), self, w)"
| "run_jobs (job_name # rest) self w =
     (case map_of (jobs self) job_name of
        None \<Rightarrow> (Raise (KeyError job_name), self, w)
      | Some j \<Rightarrow>
         (case can_run (jobs self) (depends_on j) of
            Raise e \<Rightarrow> (Raise e, self, w)
          | Return False \<Rightarrow>
              run_jobs rest
                (self\<lparr>jobs := AList.update job_name (j\<lparr>status := SKIPPED\<rparr>) (jobs self)\<rparr>) w
          | Return True \<Rightarrow>
             (case execute j (context self) w of
                (Raise e, j', ctx', w') \<Rightarrow>
                  (Raise e, self\<lparr>jobs := AList.update job_name j' (jobs self), context := ctx'\<rparr>, w')
              | (Return r, j', ctx', w') \<Rightarrow>
                  run_jobs rest
                    (self\<lparr>jobs := AList.update job_name j' (jobs self),
                          context := AList.update (result_key job_name) r ctx'\<rparr>) w')))"

definition dict_update :: "pydict \<Rightarrow> pydict \<Rightarrow> pydict" where
  "dict_update d other = fold (\<lambda>(k, v). AList.update k v) other d"

definition merge_initial :: "pydict option \<Rightarrow> pipeline \<Rightarrow> pipeline" where
  "merge_initial initial_context self =
     (case initial_context of
        None \<Rightarrow> self
      | Some ic \<Rightarrow> if ic = [] then self else self\<lparr>context := dict_update (context self) ic\<rparr>)"

definition run :: "nat \<Rightarrow> pipeline \<Rightarrow> pydict option \<Rightarrow> world
      \<Rightarrow> (pydict outcome \<times> pipeline \<times> world) option" where
  "run n self initial_context w =
     (let self1 = merge_initial initial_context self
      in case get_execution_order n self1 of
           None \<Rightarrow> None
         | Some (Raise e) \<Rightarrow> Some (Raise e, self1, w)
         | Some (Return execution_order) \<Rightarrow>
            (case run_jobs execution_order self1 w of
               (Raise e, self2, w2) \<Rightarrow> Some (Raise e, self2, w2)
             | (Return u, self2, w2) \<Rightarrow> Some (Return (context self2), self2, w2)))"

subsection \<open>Status summary\<close>

record job_summary =
  js_status :: string
  js_duration :: "double option"
  js_error :: "string option"

record status_summary =
  s_pipeline :: string
  total_jobs :: nat
  status_counts :: "(string \<times> nat) list"
  total_duration :: double
  s_jobs :: "(string \<times> job_summary) list"

text \<open>
  The loop over \<open>self.jobs.values()\<close>: \<open>statuses\<close> has every member of the enumeration as
  a key, so it is a total function; \<open>if duration:\<close> is false for \<open>None\<close> and for \<open>0.0\<close>.
\<close>

definition summary_step :: "job \<Rightarrow> (JobStatus \<Rightarrow> nat) \<times> double \<Rightarrow> (JobStatus \<Rightarrow> nat) \<times> double" where
  "summary_step j acc =
     (case acc of (statuses, total_d) \<Rightarrow>
        (statuses(status j := statuses (status j) + 1),
         (case get_duration j of
            None \<Rightarrow> total_d
          | Some d \<Rightarrow> if d = Double 0 0 then total_d else fadd total_d d)))"

definition get_status_summary :: "pipeline \<Rightarrow> status_summary" where
  "get_status_summary self =
     (case fold summary_step (map snd (jobs self)) (\<lambda>s. 0, Double 0 0) of
        (statuses, total_d) \<Rightarrow>
          \<lparr> s_pipeline = pipeline.name self,
            total_jobs = length (jobs self),
            status_counts = map (\<lambda>s. (JobStatus_value s, statuses s)) all_JobStatus,
            total_duration = total_d,
            s_jobs = map (\<lambda>(nm, j). (nm, \<lparr> js_status = JobStatus_value (status j),
                                             js_duration = get_duration j,
                                             js_error = error j \<rparr>)) (jobs self) \<rparr>)"

subsection \<open>ProcessController\<close>

record controller =
  pipelines :: "(string \<times> pipeline) list"

definition add_pipeline :: "pipeline \<Rightarrow> controller \<Rightarrow> controller" where
  "add_pipeline p self = self\<lparr>pipelines := AList.update (pipeline.name p) p (pipelines self)\<rparr>"



section \<open>Specification vocabulary\<close>

subsection \<open>The dependency graph and the execution order\<close>

text \<open>
  An edge \<open>(d, n)\<close> says that the job stored under \<open>n\<close> names \<open>d\<close> in its
  \<open>depends_on\<close>; the graph is acyclic when \<open>acyclic (dep_edges js)\<close>. \<open>deps_present\<close>:
  every name in a \<open>depends_on\<close> is a key of \<open>jobs\<close>. \<open>before xs a b\<close>: \<open>a\<close> occurs in
  \<open>xs\<close> at a position strictly before one of \<open>b\<close>. \<open>missing_dependency x\<close> is the
  exception \<open>visit\<close> raises for a name that is not a key.
\<close>

definition dep_edges :: "(string \<times> job) list \<Rightarrow> (string \<times> string) set" where
  "dep_edges js = {(d, n). \<exists>j. map_of js n = Some j \<and> d \<in> set (depends_on j)}"

definition deps_present :: "(string \<times> job) list \<Rightarrow> bool" where
  "deps_present js = (\<forall>n j. map_of js n = Some j \<longrightarrow> set (depends_on j) \<subseteq> fst ` set js)"

definition before :: "string list \<Rightarrow> string \<Rightarrow> string \<Rightarrow> bool" where
  "before xs a b = (\<exists>i k. i < k \<and> k < length xs \<and> xs ! i = a \<and> xs ! k = b)"


text \<open>
  The invariant of the visit: \<open>ordered\<close> lists \<open>visited\<close> without repetition, only keys
  are visited, the dependencies of a visited job are visited and stand before it, and no
  visited job lies on a cycle. \<open>visit_post\<close> relates the variables before and after
  visiting the names \<open>nms\<close>: the list only grows at its end, and every name added is a
  direct or transitive dependency of one of \<open>nms\<close> (or one of them).
\<close>

definition order_inv :: "(string \<times> job) list \<Rightarrow> string set \<times> string list \<Rightarrow> bool" where
  "order_inv js st =
     (case st of (visited, ordered) \<Rightarrow>
        set ordered = visited \<and> distinct ordered \<and> visited \<subseteq> fst ` set js
        \<and> (\<forall>n \<in> visited. \<forall>d. (d, n) \<in> dep_edges js \<longrightarrow> d \<in> visited \<and> before ordered d n)
        \<and> (\<forall>n \<in> visited. (n, n) \<notin> (dep_edges js)\<^sup>+))"

definition visit_post :: "(string \<times> job) list \<Rightarrow> string list \<Rightarrow> string set \<times> string list
    \<Rightarrow> string set \<times> string list \<Rightarrow> bool" where
  "visit_post js nms st st' =
     (order_inv js st' \<and> set nms \<subseteq> fst st' \<and> (\<exists>zs. snd st' = snd st @ zs)
      \<and> (\<forall>m \<in> fst st' - fst st. \<exists>x \<in> set nms. (m, x) \<in> (dep_edges js)\<^sup>*))"

subsection \<open>Runs\<close>

text \<open>
  \<open>status_of p n\<close> is the status of the job stored under \<open>n\<close>. \<open>deps_ready S ns js\<close>:
  going through \<open>ns\<close> from the left, every dependency of a job is in \<open>S\<close> or stands
  earlier in \<open>ns\<close>.
\<close>

definition status_of :: "pipeline \<Rightarrow> string \<Rightarrow> JobStatus option" where
  "status_of p n = map_option status (map_of (jobs p) n)"

definition all_pending :: "(string \<times> job) list \<Rightarrow> bool" where
  "all_pending js = (\<forall>n j. map_of js n = Some j \<longrightarrow> status j = PENDING)"

fun deps_ready :: "string set \<Rightarrow> string list \<Rightarrow> (string \<times> job) list \<Rightarrow> bool" where
  "deps_ready S [] js = True"
| "deps_ready S (n # rest) js =
     ((\<forall>j. map_of js n = Some j \<longrightarrow> set (depends_on j) \<subseteq> S) \<and> deps_ready (insert n S) rest js)"

text \<open>
  A callable keeps the context when it hands back the context it was given. The write of
  \<open>run\<close> for one job, read off the final jobs: \<open>job_<name>_result := result\<close> when the
  job is \<open>SUCCESS\<close>, nothing otherwise.
\<close>

definition context_of :: "pydict \<Rightarrow> pydict" where
  "context_of kwargs = (case map_of kwargs ''context'' of Some (VDict c) \<Rightarrow> c | _ \<Rightarrow> [])"

definition keeps_context :: "callable \<Rightarrow> bool" where
  "keeps_context f = (\<forall>kwargs w. fst (snd (f kwargs w)) = context_of kwargs)"

definition callables_keep_context :: "(string \<times> job) list \<Rightarrow> bool" where
  "callables_keep_context js = (\<forall>m j. map_of js m = Some j \<longrightarrow> keeps_context (func j))"

definition write_result :: "(string \<times> job) list \<Rightarrow> string \<Rightarrow> pydict \<Rightarrow> pydict" where
  "write_result js n c =
     (case map_of js n of
        Some j \<Rightarrow> if status j = SUCCESS then AList.update (result_key n) (result j) c else c
      | None \<Rightarrow> c)"




subsection \<open>Durations\<close>




section \<open>Example pipelines\<close>

text \<open>
  Callables that return a constant or raise, and the callable of the job \<open>double\<close>, which
  reads \<open>context["job_load_result"]["x"]\<close> and returns twice it. The clock of \<open>world0\<close>
  advances by a millisecond at every reading.
\<close>

definition returns :: "pyval \<Rightarrow> callable" where
  "returns v kwargs w = (Return v, context_of kwargs, w)"

definition raises :: "py_exception \<Rightarrow> callable" where
  "raises e kwargs w = (Raise e, context_of kwargs, w)"

definition double_fn :: callable where
  "double_fn kwargs w =
     ((case map_of (context_of kwargs) ''job_load_result'' of
         None \<Rightarrow> Raise (KeyError ''job_load_result'')
       | Some (VDict d) \<Rightarrow>
          (case map_of d ''x'' of
             None \<Rightarrow> Raise (KeyError ''x'')
           | Some (VInt x) \<Rightarrow> Return (VInt (2 * x))
           | Some v \<Rightarrow> Raise (PyException ''TypeError'' ''unsupported operand''))
       | Some v \<Rightarrow> Raise (PyException ''TypeError'' ''value is not subscriptable'')),
      context_of kwargs, w)"

definition world0 :: world where
  "world0 = \<lparr> clock = (\<lambda>n. 1000 * int n), reads = 0 \<rparr>"


definition failing_pipeline :: pipeline where
  "failing_pipeline =
     \<lparr> pipeline.name = ''failing_pipeline'',
       jobs = [(''load'', Job ''load'' (returns (VInt 5)) None None),
               (''process'', Job ''process'' (raises (PyException ''RuntimeError'' ''boom''))
                  (Some [''load'']) None),
               (''save'', Job ''save'' (returns (VInt 5)) (Some [''process'']) None)],
       context = [] \<rparr>"

definition load_double :: pipeline where
  "load_double =
     \<lparr> pipeline.name = ''load_double'',
       jobs = [(''load'', Job ''load'' (returns (VDict [(''x'', VInt 1)])) None None),
               (''double'', Job ''double'' double_fn (Some [''load'']) None)],
       context = [] \<rparr>"













section \<open>Properties of \<open>Job\<close> and \<open>add_job\<close>\<close>

subsection \<open>Adding a job\<close>

text \<open>
  Claim C8. \<open>add_job\<close> raises the duplicate-job \<open>ValueError\<close> when the name is already a
  key of \<open>jobs\<close> and then leaves the pipeline as it was; otherwise it returns and the job
  is stored under its name at the end of \<open>jobs\<close>. Adding a second job of the same name
  after a successful \<open>add_job\<close> raises and the first job is still the one stored.
\<close>

theorem add_job_duplicate_or_insert:
  "(job.name j \<in> fst ` set (jobs p) \<longrightarrow>
      add_job j p = (Raise (ValueError (''Job '' @ quote (job.name j) @ '' already exists in pipeline'')), p))
   \<and> (job.name j \<notin> fst ` set (jobs p) \<longrightarrow>
      add_job j p = (Return (), p\<lparr>jobs := jobs p @ [(job.name j, j)]\<rparr>)
      \<and> map_of (jobs (snd (add_job j p))) (job.name j) = Some j
      \<and> (\<forall>j2. job.name j2 = job.name j \<longrightarrow>
            add_job j2 (snd (add_job j p)) =
              (Raise (ValueError (''Job '' @ quote (job.name j) @ '' already exists in pipeline'')),
               snd (add_job j p))
            \<and> map_of (jobs (snd (add_job j2 (snd (add_job j p))))) (job.name j) = Some j))"
proof -
  have upd: "k \<notin> fst ` set al \<Longrightarrow> AList.update k v al = al @ [(k, v)]"
    for k :: string and v :: job and al
    by (induction al) auto
  have look: "k \<notin> fst ` set al \<Longrightarrow> map_of (al @ [(k, v)]) k = Some v"
    for k :: string and v :: job and al
    by (induction al) auto
  show ?thesis
    by (auto simp: add_job_def upd look simp del: map_of_append)
qed

theorem add_job_duplicate_or_insert_witness:
  "add_job (Job ''load'' (returns VNone) None None) (Pipeline ''p'')
     = (Return (), (Pipeline ''p'')\<lparr>jobs := [(''load'', Job ''load'' (returns VNone) None None)]\<rparr>)
   \<and> add_job (Job ''load'' (returns (VInt 1)) None None)
        (snd (add_job (Job ''load'' (returns VNone) None None) (Pipeline ''p'')))
     = (Raise (ValueError ''Job 'load' already exists in pipeline''),
        (Pipeline ''p'')\<lparr>jobs := [(''load'', Job ''load'' (returns VNone) None None)]\<rparr>)"
  using add_job_duplicate_or_insert[of "Job ''load'' (returns VNone) None None" "Pipeline ''p''"]
    add_job_duplicate_or_insert[of "Job ''load'' (returns (VInt 1)) None None"
      "(Pipeline ''p'')\<lparr>jobs := [(''load'', Job ''load'' (returns VNone) None None)]\<rparr>"]
  by (simp add: Job_def Pipeline_def quote_def)

subsection \<open>Executing a job\<close>

lemma execute_Return:
  assumes "execute j ctx w = (Return r, j', ctx', w')"
  shows "status j' = SUCCESS" "result j' = r" "error j' = error j"
    and "start_time j' = Some (clock w (reads w))" "end_time j' \<noteq> None"
    and "\<exists>w2. func j (execution_params j ctx) (snd (datetime_now w)) = (Return r, ctx', w2)"
  using assms
  by (auto simp: execute_def execute_start_def datetime_now_def execution_params_def Let_def
      split: prod.splits outcome.splits)

lemma execute_Raise:
  assumes "execute j ctx w = (Raise e, j', ctx', w')"
  shows "status j' = FAILED" "error j' = Some (exc_str e)" "result j' = result j"
    and "start_time j' = Some (clock w (reads w))" "end_time j' \<noteq> None"
    and "\<exists>w2. func j (execution_params j ctx) (snd (datetime_now w)) = (Raise e, ctx', w2)"
  using assms
  by (auto simp: execute_def execute_start_def datetime_now_def execution_params_def Let_def
      split: prod.splits outcome.splits)

lemma execute_static:
  assumes "execute j ctx w = (out, j', ctx', w')"
  shows "depends_on j' = depends_on j" "func j' = func j" "job.name j' = job.name j"
    "params j' = params j"
  using assms
  by (auto simp: execute_def execute_start_def datetime_now_def Let_def
      split: prod.splits outcome.splits)

lemma context_of_execution_params: "context_of (execution_params j ctx) = ctx"
  by (simp add: context_of_def execution_params_def update_conv')



section \<open>The execution order\<close>

subsection \<open>Positions in a list\<close>

lemma before_append: "before xs a b \<Longrightarrow> before (xs @ zs) a b"
  unfolding before_def
  by (metis (no_types, lifting) length_append less_trans nth_append trans_less_add1)

lemma before_snoc: "a \<in> set xs \<Longrightarrow> before (xs @ [b]) a b"
  unfolding before_def
  by (metis in_set_conv_nth length_append_singleton lessI nth_append nth_append_length)

lemma before_trans: "distinct xs \<Longrightarrow> before xs a b \<Longrightarrow> before xs b c \<Longrightarrow> before xs a c"
  unfolding before_def
  by (metis less_trans nth_eq_iff_index_eq)

lemma before_split:
  assumes "distinct (pre @ f # post)" "before (pre @ f # post) a b"
  shows "b \<in> set pre \<or> b = f \<Longrightarrow> a \<in> set pre" and "a = f \<Longrightarrow> b \<in> set post"
proof -
  from assms(2) obtain i k where ik: "i < k" "k < length (pre @ f # post)"
    "(pre @ f # post) ! i = a" "(pre @ f # post) ! k = b"
    by (auto simp: before_def)
  have pos: "(pre @ f # post) ! length pre = f" by simp
  have inj: "\<And>x y. x < length (pre @ f # post) \<Longrightarrow> y < length (pre @ f # post) \<Longrightarrow>
     (pre @ f # post) ! x = (pre @ f # post) ! y \<Longrightarrow> x = y"
    using assms(1) nth_eq_iff_index_eq by blast
  show "a \<in> set pre" if "b \<in> set pre \<or> b = f"
  proof -
    have "k \<le> length pre"
    proof (rule ccontr)
      assume "\<not> k \<le> length pre"
      then have k: "length pre < k" by simp
      from that show False
      proof
        assume "b = f"
        with ik(2,4) pos inj[of k "length pre"] k show False by simp
      next
        assume "b \<in> set pre"
        then obtain m where "m < length pre" "pre ! m = b" by (auto simp: in_set_conv_nth)
        then have "(pre @ f # post) ! m = b" "m < length (pre @ f # post)"
          by (simp_all add: nth_append)
        with ik(2,4) inj[of k m] k \<open>m < length pre\<close> show False by simp
      qed
    qed
    with ik(1) have "i < length pre" by simp
    with ik(3) show ?thesis by (auto simp: nth_append)
  qed
  show "b \<in> set post" if "a = f"
  proof -
    from that ik pos inj[of i "length pre"] have "i = length pre" by simp
    with ik(1) have "length pre < k" by simp
    with ik(2,4) have "b = post ! (k - Suc (length pre))" "k - Suc (length pre) < length post"
      by (auto simp: nth_append nth_Cons')
    then show ?thesis by simp
  qed
qed

subsection \<open>The invariant of the visit\<close>

lemma finite_dep_edges: "finite (dep_edges js)"
proof -
  have "dep_edges js \<subseteq> (\<Union>(n, j) \<in> set js. set (depends_on j)) \<times> fst ` set js"
    by (auto simp: dep_edges_def dest!: map_of_SomeD intro: rev_image_eqI)
  moreover have "finite ((\<Union>(n, j) \<in> set js. set (depends_on j)) \<times> fst ` set js)"
    by auto
  ultimately show ?thesis by (rule finite_subset)
qed

lemma edge_key: "(d, n) \<in> dep_edges js \<Longrightarrow> n \<in> fst ` set js"
  by (auto simp: dep_edges_def dest!: map_of_SomeD intro: rev_image_eqI)

lemma acyclic_by_rank:
  fixes f :: "string \<Rightarrow> nat"
  assumes "\<And>n j d. map_of js n = Some j \<Longrightarrow> d \<in> set (depends_on j) \<Longrightarrow> f d < f n"
  shows "acyclic (dep_edges js)"
proof -
  have "dep_edges js \<subseteq> measure f"
    using assms by (auto simp: dep_edges_def)
  then show ?thesis
    by (meson acyclic_subset wf_acyclic wf_measure)
qed

lemma inv_closed:
  assumes "order_inv js (V, ord)" "(m, n) \<in> (dep_edges js)\<^sup>*" "n \<in> V"
  shows "m \<in> V"
  using assms(2,3,1)
  by (induction rule: converse_rtrancl_induct) (auto simp: order_inv_def)

lemma inv_before_trancl:
  assumes "order_inv js (V, ord)" "(d, n) \<in> (dep_edges js)\<^sup>+" "n \<in> V"
  shows "d \<in> V \<and> before ord d n"
  using assms(2,3,1)
proof (induction rule: converse_trancl_induct)
  case (base y)
  then show ?case by (auto simp: order_inv_def)
next
  case (step y z)
  then have z: "z \<in> V" "before ord z n" by auto
  with step have "y \<in> V \<and> before ord y z" by (auto simp: order_inv_def)
  moreover have "distinct ord" using step.prems by (simp add: order_inv_def)
  ultimately show ?case using z before_trans by blast
qed

lemma order_inv_empty: "order_inv js ({}, [])"
  by (simp add: order_inv_def)

lemma visit_step:
  assumes inv1: "order_inv js (V1, O1)"
    and nm: "nm \<notin> V" "map_of js nm = Some j"
    and deps: "set (depends_on j) \<subseteq> V1"
    and new: "\<forall>m \<in> V1 - V. \<exists>x \<in> set (depends_on j). (m, x) \<in> (dep_edges js)\<^sup>*"
  shows "nm \<notin> V1"
    and "order_inv js (insert nm V1, O1 @ [nm])"
    and "\<forall>m \<in> insert nm V1 - V. (m, nm) \<in> (dep_edges js)\<^sup>*"
proof -
  have edge: "(d, nm) \<in> dep_edges js \<longleftrightarrow> d \<in> set (depends_on j)" for d
    using nm(2) by (simp add: dep_edges_def)
  show notin: "nm \<notin> V1"
  proof
    assume in1: "nm \<in> V1"
    with nm(1) new obtain x where x: "x \<in> set (depends_on j)" "(nm, x) \<in> (dep_edges js)\<^sup>*"
      by blast
    then have "(nm, nm) \<in> (dep_edges js)\<^sup>+"
      using edge by (meson rtrancl_into_trancl1)
    with inv1 in1 show False by (auto simp: order_inv_def)
  qed
  have nocyc: "(nm, nm) \<notin> (dep_edges js)\<^sup>+"
  proof
    assume "(nm, nm) \<in> (dep_edges js)\<^sup>+"
    then obtain d where d: "(nm, d) \<in> (dep_edges js)\<^sup>*" "(d, nm) \<in> dep_edges js"
      by (meson tranclD2)
    then have "d \<in> V1" using edge deps by auto
    with inv_closed[OF inv1 d(1)] have "nm \<in> V1" by simp
    with notin show False by simp
  qed
  have key: "nm \<in> fst ` set js"
    using nm(2) by (metis map_of_SomeD fst_conv image_eqI)
  have setO: "set O1 = V1" and dist: "distinct O1" and sub: "V1 \<subseteq> fst ` set js"
    and clos: "\<And>n d. n \<in> V1 \<Longrightarrow> (d, n) \<in> dep_edges js \<Longrightarrow> d \<in> V1 \<and> before O1 d n"
    and cyc: "\<And>n. n \<in> V1 \<Longrightarrow> (n, n) \<notin> (dep_edges js)\<^sup>+"
    using inv1 by (auto simp: order_inv_def)
  have c2: "d \<in> insert nm V1 \<and> before (O1 @ [nm]) d n"
    if "n \<in> insert nm V1" "(d, n) \<in> dep_edges js" for n d
  proof (cases "n = nm")
    case True
    with that edge deps have "d \<in> V1" by auto
    then show ?thesis using True setO before_snoc by auto
  next
    case False
    with that clos[of n d] show ?thesis by (auto intro: before_append)
  qed
  show "order_inv js (insert nm V1, O1 @ [nm])"
    unfolding order_inv_def using setO dist sub notin key c2 cyc nocyc by auto
  show "\<forall>m \<in> insert nm V1 - V. (m, nm) \<in> (dep_edges js)\<^sup>*"
  proof
    fix m assume m: "m \<in> insert nm V1 - V"
    show "(m, nm) \<in> (dep_edges js)\<^sup>*"
    proof (cases "m = nm")
      case True then show ?thesis by simp
    next
      case False
      with m new obtain x where "x \<in> set (depends_on j)" "(m, x) \<in> (dep_edges js)\<^sup>*" by blast
      then show ?thesis using edge by (meson rtrancl.rtrancl_into_rtrancl)
    qed
  qed
qed

lemma visit_post_refl: "order_inv js st \<Longrightarrow> visit_post js [] st st"
  by (simp add: visit_post_def)

lemma visit_post_visited: "order_inv js (V, ord) \<Longrightarrow> nm \<in> V \<Longrightarrow> visit_post js [nm] (V, ord) (V, ord)"
  by (simp add: visit_post_def)

lemma visit_post_trans:
  assumes "visit_post js [nm] st st1" "visit_post js nms st1 st'"
  shows "visit_post js (nm # nms) st st'"
proof -
  obtain V ord V1 O1 V' O' where st: "st = (V, ord)" "st1 = (V1, O1)" "st' = (V', O')"
    by (metis surj_pair)
  from assms have i1: "order_inv js (V1, O1)" and i2: "order_inv js (V', O')"
    and nm: "nm \<in> V1" and nms: "set nms \<subseteq> V'"
    and z1: "\<exists>zs. O1 = ord @ zs" and z2: "\<exists>zs. O' = O1 @ zs"
    and n1: "\<forall>m \<in> V1 - V. (m, nm) \<in> (dep_edges js)\<^sup>*"
    and n2: "\<forall>m \<in> V' - V1. \<exists>x \<in> set nms. (m, x) \<in> (dep_edges js)\<^sup>*"
    by (auto simp: visit_post_def st)
  have s1: "set O1 = V1" and s2: "set O' = V'"
    using i1 i2 by (auto simp: order_inv_def)
  have sub: "V1 \<subseteq> V'" using z2 s1 s2 by auto
  have "\<exists>zs. O' = ord @ zs" using z1 z2 by auto
  moreover have "\<forall>m \<in> V' - V. \<exists>x \<in> set (nm # nms). (m, x) \<in> (dep_edges js)\<^sup>*"
    using n1 n2 by (metis DiffD1 DiffD2 DiffI list.set_intros(1) list.set_intros(2))
  ultimately show ?thesis
    using i2 nm nms sub by (auto simp: visit_post_def st)
qed

lemma visit_post_step:
  assumes "order_inv js (V, ord)" "nm \<notin> V" "map_of js nm = Some j"
    and "visit_post js (depends_on j) (V, ord) (V1, O1)"
  shows "visit_post js [nm] (V, ord) (insert nm V1, O1 @ [nm])"
proof -
  from assms(4) have i1: "order_inv js (V1, O1)" and d: "set (depends_on j) \<subseteq> V1"
    and z: "\<exists>zs. O1 = ord @ zs"
    and n: "\<forall>m \<in> V1 - V. \<exists>x \<in> set (depends_on j). (m, x) \<in> (dep_edges js)\<^sup>*"
    by (auto simp: visit_post_def)
  from visit_step[OF i1 assms(2,3) d n] z show ?thesis
    by (auto simp: visit_post_def)
qed

lemma visit_inv_both:
  "order_inv js st \<longrightarrow> (\<forall>st'. visit n js nm st = Some (Return st') \<longrightarrow> visit_post js [nm] st st')"
  "order_inv js st2 \<longrightarrow> (\<forall>st'. visit_each n js nms st2 = Some (Return st') \<longrightarrow> visit_post js nms st2 st')"
proof (induction n js nm st and n js nms st2 rule: visit_visit_each.induct)
  case (1 js job_name st)
  then show ?case by simp
next
  case (2 n js job_name visited ordered)
  show ?case
  proof (intro impI allI)
    fix st'
    assume inv: "order_inv js (visited, ordered)"
      and run: "visit (Suc n) js job_name (visited, ordered) = Some (Return st')"
    show "visit_post js [job_name] (visited, ordered) st'"
    proof (cases "job_name \<in> visited")
      case True
      with run have "st' = (visited, ordered)" by simp
      with inv True show ?thesis by (simp add: visit_post_visited)
    next
      case False
      with run obtain j where j: "map_of js job_name = Some j"
        by (auto split: option.splits)
      with run False obtain V1 O1 where
        r1: "visit_each n js (depends_on j) (visited, ordered) = Some (Return (V1, O1))"
        and st': "st' = (insert job_name V1, O1 @ [job_name])"
        by (auto split: option.splits outcome.splits)
      from "2.IH"[OF False j] inv r1
      have "visit_post js (depends_on j) (visited, ordered) (V1, O1)" by blast
      from visit_post_step[OF inv False j this] st' show ?thesis by simp
    qed
  qed
next
  case (3 n js st)
  then show ?case by (simp add: visit_post_refl)
next
  case (4 n js dep deps st)
  show ?case
  proof (intro impI allI)
    fix st'
    assume inv: "order_inv js st"
      and run: "visit_each n js (dep # deps) st = Some (Return st')"
    then obtain st1 where r1: "visit n js dep st = Some (Return st1)"
      and r2: "visit_each n js deps st1 = Some (Return st')"
      by (auto split: option.splits outcome.splits)
    from "4.IH"(1) inv r1 have p1: "visit_post js [dep] st st1" by blast
    then have "order_inv js st1" by (simp add: visit_post_def)
    with "4.IH"(2)[OF r1 refl] r2 have "visit_post js deps st1 st'" by blast
    with p1 show "visit_post js (dep # deps) st st'" by (rule visit_post_trans)
  qed
qed

subsection \<open>Recursion depth and termination\<close>

lemma visit_mono_both:
  "\<forall>r. visit n js nm st = Some r \<longrightarrow> visit (n + k) js nm st = Some r"
  "\<forall>r. visit_each n js nms st2 = Some r \<longrightarrow> visit_each (n + k) js nms st2 = Some r"
proof (induction n js nm st and n js nms st2 rule: visit_visit_each.induct)
  case (1 js job_name st)
  then show ?case by simp
next
  case (2 n js job_name visited ordered)
  show ?case
  proof (intro allI impI)
    fix r assume run: "visit (Suc n) js job_name (visited, ordered) = Some r"
    show "visit (Suc n + k) js job_name (visited, ordered) = Some r"
    proof (cases "job_name \<in> visited")
      case True
      with run show ?thesis by simp
    next
      case False
      show ?thesis
      proof (cases "map_of js job_name")
        case None
        with run False show ?thesis by simp
      next
        case (Some j)
        with run False obtain r1 where
          r1: "visit_each n js (depends_on j) (visited, ordered) = Some r1"
          by (auto split: option.splits)
        with "2.IH"[OF False Some]
        have "visit_each (n + k) js (depends_on j) (visited, ordered) = Some r1" by blast
        with run r1 False Some show ?thesis by simp
      qed
    qed
  qed
next
  case (3 n js st)
  then show ?case by simp
next
  case (4 n js dep deps st)
  show ?case
  proof (intro allI impI)
    fix r assume run: "visit_each n js (dep # deps) st = Some r"
    then obtain r1 where r1: "visit n js dep st = Some r1"
      by (auto split: option.splits)
    with "4.IH"(1) have m1: "visit (n + k) js dep st = Some r1" by blast
    show "visit_each (n + k) js (dep # deps) st = Some r"
    proof (cases r1)
      case (Return st1)
      with run r1 have "visit_each n js deps st1 = Some r" by simp
      with "4.IH"(2)[OF r1 Return] have "visit_each (n + k) js deps st1 = Some r" by blast
      with m1 Return show ?thesis by simp
    next
      case (Raise e)
      with run r1 have "r = Raise e" by simp
      with m1 Raise show ?thesis by simp
    qed
  qed
qed

lemma visit_mono: "visit n js nm st = Some r \<Longrightarrow> n \<le> m \<Longrightarrow> visit m js nm st = Some r"
  using visit_mono_both(1)[of n js nm st "m - n"] by simp

lemma visit_each_mono:
  "visit_each n js nms st = Some r \<Longrightarrow> n \<le> m \<Longrightarrow> visit_each m js nms st = Some r"
  using visit_mono_both(2)[of n js nms st "m - n"] by simp

lemma visit_each_terminates:
  assumes "\<And>d st. d \<in> set ds \<Longrightarrow> \<exists>n r. visit n js d st = Some r"
  shows "\<exists>n r. visit_each n js ds st = Some r"
  using assms
proof (induction ds arbitrary: st)
  case Nil
  then show ?case by simp
next
  case (Cons d ds)
  from Cons.prems[of d st] obtain n1 r1 where r1: "visit n1 js d st = Some r1" by auto
  show ?case
  proof (cases r1)
    case (Raise e)
    with r1 have "visit_each n1 js (d # ds) st = Some (Raise e)" by simp
    then show ?thesis by blast
  next
    case (Return st1)
    from Cons.IH[of st1] Cons.prems obtain n2 r2 where r2: "visit_each n2 js ds st1 = Some r2"
      by auto
    have "visit (max n1 n2) js d st = Some (Return st1)"
      using r1 Return by (auto intro: visit_mono)
    moreover have "visit_each (max n1 n2) js ds st1 = Some r2"
      using r2 by (auto intro: visit_each_mono)
    ultimately have "visit_each (max n1 n2) js (d # ds) st = Some r2" by simp
    then show ?thesis by blast
  qed
qed

lemma visit_terminates:
  assumes "acyclic (dep_edges js)"
  shows "\<exists>n r. visit n js nm st = Some r"
proof -
  have "wf (dep_edges js)"
    using finite_dep_edges assms by (rule finite_acyclic_wf)
  then show ?thesis
  proof (induction nm arbitrary: st rule: wf_induct_rule)
    case (less nm)
    obtain V ord where st: "st = (V, ord)" by (cases st)
    show ?case
    proof (cases "nm \<in> V")
      case True
      then have "visit (Suc 0) js nm st = Some (Return st)" by (simp add: st)
      then show ?thesis by blast
    next
      case False
      show ?thesis
      proof (cases "map_of js nm")
        case None
        with False have "\<exists>r. visit (Suc 0) js nm st = Some r" by (simp add: st)
        then show ?thesis by blast
      next
        case (Some j)
        have "\<exists>n r. visit n js d st' = Some r" if "d \<in> set (depends_on j)" for d st'
          using less[of d st'] that Some by (auto simp: dep_edges_def)
        then obtain n r where "visit_each n js (depends_on j) (V, ord) = Some r"
          using visit_each_terminates[of "depends_on j" js "(V, ord)"] by blast
        with False Some have "\<exists>r'. visit (Suc n) js nm st = Some r'"
          by (auto simp: st split: outcome.splits)
        then show ?thesis by blast
      qed
    qed
  qed
qed

subsection \<open>What the visit raises\<close>

lemma visit_no_raise:
  assumes "deps_present js"
  shows "nm \<in> fst ` set js \<longrightarrow> visit n js nm st \<noteq> Some (Raise e)"
    and "set nms \<subseteq> fst ` set js \<longrightarrow> visit_each n js nms st2 \<noteq> Some (Raise e)"
  using assms
proof (induction n js nm st and n js nms st2 rule: visit_visit_each.induct)
  case (1 js job_name st)
  then show ?case by simp
next
  case (2 n js job_name visited ordered)
  show ?case
  proof
    assume key: "job_name \<in> fst ` set js"
    show "visit (Suc n) js job_name (visited, ordered) \<noteq> Some (Raise e)"
    proof (cases "job_name \<in> visited")
      case True
      then show ?thesis by simp
    next
      case False
      from key obtain j where j: "map_of js job_name = Some j"
        by (metis map_of_eq_None_iff not_Some_eq)
      with "2.prems" have "set (depends_on j) \<subseteq> fst ` set js"
        by (auto simp: deps_present_def)
      with "2.IH"[OF False j "2.prems"]
      have "visit_each n js (depends_on j) (visited, ordered) \<noteq> Some (Raise e)" by blast
      with False j show ?thesis by (auto split: option.splits outcome.splits)
    qed
  qed
next
  case (3 n js st)
  then show ?case by simp
next
  case (4 n js dep deps st)
  show ?case
  proof
    assume sub: "set (dep # deps) \<subseteq> fst ` set js"
    with "4.IH"(1)[OF "4.prems"] have a: "visit n js dep st \<noteq> Some (Raise e)" by simp
    have b: "visit_each n js deps st1 \<noteq> Some (Raise e)" if "visit n js dep st = Some (Return st1)" for st1
      using "4.IH"(2)[OF that refl "4.prems"] sub by simp
    show "visit_each n js (dep # deps) st \<noteq> Some (Raise e)"
      using a b by (auto split: option.splits outcome.splits)
  qed
qed


subsection \<open>The order as a whole\<close>

lemma get_execution_order_return:
  assumes "get_execution_order n p = Some (Return order)"
  shows "distinct order" "set order = fst ` set (jobs p)"
    and "\<And>d j. (d, j) \<in> (dep_edges (jobs p))\<^sup>+ \<Longrightarrow> before order d j"
    and "acyclic (dep_edges (jobs p))" "deps_present (jobs p)"
proof -
  from assms obtain V where
    r: "visit_each n (jobs p) (map fst (jobs p)) ({}, []) = Some (Return (V, order))"
    by (auto simp: get_execution_order_def split: option.splits outcome.splits)
  with visit_inv_both(2)[of "jobs p" "({}, [])" n "map fst (jobs p)"] order_inv_empty
  have post: "visit_post (jobs p) (map fst (jobs p)) ({}, []) (V, order)" by blast
  then have inv: "order_inv (jobs p) (V, order)" and sup: "fst ` set (jobs p) \<subseteq> V"
    by (auto simp: visit_post_def)
  from inv have V: "V = fst ` set (jobs p)" and so: "set order = V" and "distinct order"
    using sup by (auto simp: order_inv_def)
  show "distinct order" by fact
  show "set order = fst ` set (jobs p)" using V so by simp
  show "before order d j" if "(d, j) \<in> (dep_edges (jobs p))\<^sup>+" for d j
  proof -
    from that have "j \<in> V" unfolding V by (meson edge_key tranclD2)
    with inv_before_trancl[OF inv that] show ?thesis by simp
  qed
  show "acyclic (dep_edges (jobs p))"
    unfolding acyclic_def
  proof (intro allI notI)
    fix x assume x: "(x, x) \<in> (dep_edges (jobs p))\<^sup>+"
    then have "x \<in> V" unfolding V by (meson edge_key tranclD2)
    with inv x show False by (auto simp: order_inv_def)
  qed
  show "deps_present (jobs p)"
    unfolding deps_present_def
  proof (intro allI impI subsetI)
    fix n j d assume j: "map_of (jobs p) n = Some j" and d: "d \<in> set (depends_on j)"
    then have e: "(d, n) \<in> dep_edges (jobs p)" by (auto simp: dep_edges_def)
    then have "n \<in> V" unfolding V by (rule edge_key)
    with inv e have "d \<in> V" by (auto simp: order_inv_def)
    then show "d \<in> fst ` set (jobs p)" by (simp add: V)
  qed
qed

lemma get_execution_order_mono:
  "get_execution_order n p = Some r \<Longrightarrow> n \<le> m \<Longrightarrow> get_execution_order m p = Some r"
  unfolding get_execution_order_def
  by (auto split: option.splits dest: visit_each_mono)

lemma get_execution_order_terminates:
  assumes "acyclic (dep_edges (jobs p))"
  shows "\<exists>n r. get_execution_order n p = Some r"
proof -
  have "\<exists>n r. visit_each n (jobs p) (map fst (jobs p)) ({}, []) = Some r"
    by (rule visit_each_terminates) (rule visit_terminates[OF assms])
  then show ?thesis
    unfolding get_execution_order_def
    by (fastforce split: option.splits outcome.splits)
qed


lemma get_execution_order_no_raise:
  "deps_present (jobs p) \<Longrightarrow> get_execution_order n p \<noteq> Some (Raise e)"
  unfolding get_execution_order_def
  using visit_no_raise(2)[of "jobs p" "map fst (jobs p)" n "({}, [])" e]
  by (auto split: option.splits outcome.splits)

lemma get_execution_order_total:
  assumes "acyclic (dep_edges (jobs p))" "deps_present (jobs p)"
  shows "\<exists>n order. \<forall>m\<ge>n. get_execution_order m p = Some (Return order)"
proof -
  from get_execution_order_terminates[OF assms(1)] obtain n r
    where r: "get_execution_order n p = Some r" by blast
  with get_execution_order_no_raise[OF assms(2)] obtain order where "r = Return order"
    by (cases r) auto
  with r have "\<forall>m\<ge>n. get_execution_order m p = Some (Return order)"
    by (auto intro: get_execution_order_mono)
  then show ?thesis by blast
qed


section \<open>The loop of run\<close>

subsection \<open>One iteration\<close>

lemma can_run_no_raise: "set ds \<subseteq> fst ` set js \<Longrightarrow> \<exists>b. can_run js ds = Return b"
proof (induction ds)
  case Nil
  then show ?case by auto
next
  case (Cons d ds)
  then obtain dj where "map_of js d = Some dj"
    by (metis list.set_intros(1) map_of_eq_None_iff not_Some_eq subsetD)
  with Cons show ?case by auto
qed

lemma can_run_True:
  "can_run js ds = Return True \<longleftrightarrow> (\<forall>d \<in> set ds. \<exists>dj. map_of js d = Some dj \<and> status dj = SUCCESS)"
  by (induction ds) (auto split: option.splits)

lemma run_jobs_Cons_cases:
  assumes "map_of (jobs p) n = Some j" "set (depends_on j) \<subseteq> fst ` set (jobs p)"
  obtains
    (skip) "can_run (jobs p) (depends_on j) = Return False"
      "run_jobs (n # rest) p w =
         run_jobs rest (p\<lparr>jobs := AList.update n (j\<lparr>status := SKIPPED\<rparr>) (jobs p)\<rparr>) w"
  | (fail) e j' ctx' w' where "can_run (jobs p) (depends_on j) = Return True"
      "execute j (context p) w = (Raise e, j', ctx', w')"
      "run_jobs (n # rest) p w =
         (Raise e, p\<lparr>jobs := AList.update n j' (jobs p), context := ctx'\<rparr>, w')"
  | (ok) r j' ctx' w' where "can_run (jobs p) (depends_on j) = Return True"
      "execute j (context p) w = (Return r, j', ctx', w')"
      "run_jobs (n # rest) p w =
         run_jobs rest (p\<lparr>jobs := AList.update n j' (jobs p),
                          context := AList.update (result_key n) r ctx'\<rparr>) w'"
proof -
  from can_run_no_raise[OF assms(2)] obtain b where b: "can_run (jobs p) (depends_on j) = Return b"
    by blast
  show ?thesis
  proof (cases b)
    case False
    with b assms(1) show ?thesis by (intro skip) auto
  next
    case True
    obtain out j' ctx' w' where ex: "execute j (context p) w = (out, j', ctx', w')"
      by (metis prod_cases4)
    show ?thesis
    proof (cases out)
      case (Return r)
      with ex b True assms(1) show ?thesis by (intro ok[of r j' ctx' w']) auto
    next
      case (Raise e)
      with ex b True assms(1) show ?thesis by (intro fail[of e j' ctx' w']) auto
    qed
  qed
qed

lemma map_fst_update:
  "map_of al k = Some v0 \<Longrightarrow> map fst (AList.update k v al) = map fst al"
  by (induction al) (auto split: if_splits)

lemma key_update:
  "map_of js n = Some j \<Longrightarrow> fst ` set (AList.update n j' js) = fst ` set js"
  by (auto simp: dom_update dest: map_of_SomeD intro: rev_image_eqI)

lemma key_lookup: "n \<in> fst ` set js \<Longrightarrow> \<exists>j. map_of js n = Some j"
  by (metis map_of_eq_None_iff not_Some_eq)


lemma deps_present_update:
  assumes "map_of js n = Some j" "depends_on j' = depends_on j" "deps_present js"
  shows "deps_present (AList.update n j' js)"
  using assms
  unfolding deps_present_def
  by (auto simp: update_conv' dom_update split: if_splits intro: rev_image_eqI dest: map_of_SomeD)

lemma deps_ready_update:
  assumes "map_of js n = Some j" "depends_on j' = depends_on j"
  shows "deps_ready S ns (AList.update n j' js) = deps_ready S ns js"
  using assms by (induction ns arbitrary: S) (auto simp: update_conv')

lemma status_of_update:
  "status_of (p\<lparr>jobs := AList.update n j1 (jobs p), context := c\<rparr>) m =
     (if m = n then Some (status j1) else status_of p m)"
  by (simp add: status_of_def update_conv')

subsection \<open>What the loop leaves unchanged, and how it fails\<close>

lemma run_jobs_frame:
  assumes "set ns \<subseteq> fst ` set (jobs p)" "deps_present (jobs p)"
    and "run_jobs ns p w = (out, p', w')"
  shows "map fst (jobs p') = map fst (jobs p) \<and> pipeline.name p' = pipeline.name p
    \<and> (\<forall>m. m \<notin> set ns \<longrightarrow> map_of (jobs p') m = map_of (jobs p) m)
    \<and> (\<forall>m j'. map_of (jobs p') m = Some j' \<longrightarrow>
          (\<exists>j. map_of (jobs p) m = Some j \<and> depends_on j' = depends_on j \<and> func j' = func j
               \<and> job.name j' = job.name j \<and> params j' = params j))"
  using assms
proof (induction ns arbitrary: p w)
  case Nil
  then show ?case by auto
next
  case (Cons n rest)
  from Cons.prems(1) obtain j where j: "map_of (jobs p) n = Some j"
    using key_lookup by fastforce
  with Cons.prems(2) have dj: "set (depends_on j) \<subseteq> fst ` set (jobs p)"
    by (auto simp: deps_present_def)
  have step: ?case
    if run1: "run_jobs rest (p\<lparr>jobs := AList.update n j1 (jobs p), context := c1\<rparr>) w1 = (out, p', w')"
      and st: "depends_on j1 = depends_on j" "func j1 = func j" "job.name j1 = job.name j"
        "params j1 = params j"
    for j1 c1 w1
  proof -
    let ?p1 = "p\<lparr>jobs := AList.update n j1 (jobs p), context := c1\<rparr>"
    have k: "fst ` set (jobs ?p1) = fst ` set (jobs p)" using j by (simp add: key_update)
    have d: "deps_present (jobs ?p1)"
      using deps_present_update[OF j st(1) Cons.prems(2)] by simp
    from Cons.IH[of ?p1 w1] Cons.prems(1) k d run1
    have ih: "map fst (jobs p') = map fst (jobs ?p1) \<and> pipeline.name p' = pipeline.name ?p1
      \<and> (\<forall>m. m \<notin> set rest \<longrightarrow> map_of (jobs p') m = map_of (jobs ?p1) m)
      \<and> (\<forall>m j'. map_of (jobs p') m = Some j' \<longrightarrow>
          (\<exists>j. map_of (jobs ?p1) m = Some j \<and> depends_on j' = depends_on j \<and> func j' = func j
               \<and> job.name j' = job.name j \<and> params j' = params j))"
      by auto
    have a: "map fst (jobs p') = map fst (jobs p)"
      using ih j by (simp add: map_fst_update)
    have b: "pipeline.name p' = pipeline.name p" using ih by simp
    have c: "map_of (jobs p') m = map_of (jobs p) m" if "m \<notin> set (n # rest)" for m
      using ih that by (simp add: update_conv')
    have e: "\<exists>j. map_of (jobs p) m = Some j \<and> depends_on j' = depends_on j \<and> func j' = func j
               \<and> job.name j' = job.name j \<and> params j' = params j"
      if m: "map_of (jobs p') m = Some j'" for m j'
    proof -
      from ih m obtain j2 where j2: "map_of (jobs ?p1) m = Some j2" "depends_on j' = depends_on j2"
        "func j' = func j2" "job.name j' = job.name j2" "params j' = params j2" by blast
      show ?thesis
      proof (cases "m = n")
        case True
        with j2 have "j2 = j1" by (simp add: update_conv')
        with j2 st j True show ?thesis by simp
      next
        case False
        with j2 have "map_of (jobs p) m = Some j2" by (simp add: update_conv')
        with j2 show ?thesis by simp
      qed
    qed
    show ?thesis using a b c e by blast
  qed
  from j dj show ?case
  proof (cases rule: run_jobs_Cons_cases[where rest = rest and w = w])
    case skip
    with Cons.prems(3) have
      "run_jobs rest (p\<lparr>jobs := AList.update n (j\<lparr>status := SKIPPED\<rparr>) (jobs p), context := context p\<rparr>) w
         = (out, p', w')" by simp
    from step[OF this] show ?thesis by simp
  next
    case (fail e j' ctx' w'')
    with Cons.prems(3) have p': "p' = p\<lparr>jobs := AList.update n j' (jobs p), context := ctx'\<rparr>"
      by simp
    note st = execute_static[OF fail(2)]
    have "\<exists>j0. map_of (jobs p) m = Some j0 \<and> depends_on j2 = depends_on j0 \<and> func j2 = func j0
               \<and> job.name j2 = job.name j0 \<and> params j2 = params j0"
      if "map_of (jobs p') m = Some j2" for m j2
      using that j st unfolding p' by (cases "m = n") (simp_all add: update_conv')
    moreover have "map fst (jobs p') = map fst (jobs p)"
      unfolding p' using j by (simp add: map_fst_update)
    moreover have "\<forall>m. m \<notin> set (n # rest) \<longrightarrow> map_of (jobs p') m = map_of (jobs p) m"
      unfolding p' by (simp add: update_conv')
    moreover have "pipeline.name p' = pipeline.name p" unfolding p' by simp
    ultimately show ?thesis by blast
  next
    case (ok r j' ctx' w'')
    note st = execute_static[OF ok(2)]
    from ok(3) Cons.prems(3) have
      "run_jobs rest (p\<lparr>jobs := AList.update n j' (jobs p),
          context := AList.update (result_key n) r ctx'\<rparr>) w'' = (out, p', w')" by simp
    from step[OF this st] show ?thesis .
  qed
qed


subsection \<open>Dependencies that are ready\<close>

lemma deps_ready_take:
  assumes "\<forall>k < length ns. \<forall>j. map_of js (ns ! k) = Some j \<longrightarrow>
             (\<forall>d \<in> set (depends_on j). d \<in> S \<or> d \<in> set (take k ns))"
  shows "deps_ready S ns js"
  using assms
proof (induction ns arbitrary: S)
  case Nil
  then show ?case by simp
next
  case (Cons n rest)
  have "set (depends_on j) \<subseteq> S" if "map_of js n = Some j" for j
    using Cons.prems[rule_format, of 0 j] that by auto
  moreover have "deps_ready (insert n S) rest js"
  proof (rule Cons.IH, intro allI impI ballI)
    fix k j d assume k: "k < length rest" and j: "map_of js (rest ! k) = Some j"
      and d: "d \<in> set (depends_on j)"
    from Cons.prems[rule_format, of "Suc k" j d] k j d
    show "d \<in> insert n S \<or> d \<in> set (take k rest)" by auto
  qed
  ultimately show ?case by simp
qed

lemma deps_ready_order:
  assumes "distinct order" "\<And>d j. (d, j) \<in> dep_edges js \<Longrightarrow> before order d j"
  shows "deps_ready {} order js"
proof (rule deps_ready_take, intro allI impI ballI)
  fix k j d assume k: "k < length order" and j: "map_of js (order ! k) = Some j"
    and d: "d \<in> set (depends_on j)"
  then have "(d, order ! k) \<in> dep_edges js" by (auto simp: dep_edges_def)
  from assms(2)[OF this] obtain i k' where ik: "i < k'" "k' < length order" "order ! i = d"
    "order ! k' = order ! k" by (auto simp: before_def)
  have "k' = k"
    using nth_eq_iff_index_eq[OF assms(1), of k' k] ik(2,4) k by simp
  with ik have i: "i < length (take k order)" "take k order ! i = d" by simp_all
  have "d \<in> set (take k order)"
    using nth_mem[OF i(1)] i(2) by simp
  then show "d \<in> {} \<or> d \<in> set (take k order)" by simp
qed

lemma run_jobs_ready:
  assumes "distinct ns" "set ns \<subseteq> fst ` set (jobs p)" "deps_present (jobs p)"
    and "deps_ready S ns (jobs p)" "\<forall>d \<in> S. status_of p d = Some SUCCESS" "S \<inter> set ns = {}"
    and "run_jobs ns p w = (out, p', w')"
  shows "(\<forall>u. out = Return u \<longrightarrow> (\<forall>m \<in> set ns. status_of p' m = Some SUCCESS))
       \<and> (\<forall>e. out = Raise e \<longrightarrow>
             (\<exists>pre f post. ns = pre @ f # post \<and> (\<forall>m \<in> set pre. status_of p' m = Some SUCCESS)
                \<and> status_of p' f = Some FAILED
                \<and> (\<forall>m \<in> set post. map_of (jobs p') m = map_of (jobs p) m)))"
  using assms
proof (induction ns arbitrary: p w S)
  case Nil
  then show ?case by auto
next
  case (Cons n rest)
  from Cons.prems(2) obtain j where j: "map_of (jobs p) n = Some j"
    using key_lookup by fastforce
  with Cons.prems(3) have dj: "set (depends_on j) \<subseteq> fst ` set (jobs p)"
    by (auto simp: deps_present_def)
  from Cons.prems(4) j have dS: "set (depends_on j) \<subseteq> S" and rdy: "deps_ready (insert n S) rest (jobs p)"
    by auto
  have "\<forall>d \<in> set (depends_on j). \<exists>dj. map_of (jobs p) d = Some dj \<and> status dj = SUCCESS"
    using dS Cons.prems(5) by (auto simp: status_of_def)
  then have can: "can_run (jobs p) (depends_on j) = Return True"
    by (simp add: can_run_True)
  from j dj show ?case
  proof (cases rule: run_jobs_Cons_cases[where rest = rest and w = w])
    case skip
    with can show ?thesis by simp
  next
    case (fail e' j' ctx' w'')
    with Cons.prems(7) have p': "p' = p\<lparr>jobs := AList.update n j' (jobs p), context := ctx'\<rparr>"
      and out: "out = Raise e'" by simp_all
    have "status_of p' n = Some FAILED"
      unfolding p' using execute_Raise(1)[OF fail(2)] by (simp add: status_of_update)
    moreover have "\<forall>m \<in> set rest. map_of (jobs p') m = map_of (jobs p) m"
      unfolding p' using Cons.prems(1) by (auto simp: update_conv')
    moreover have "n # rest = [] @ n # rest" by simp
    ultimately have "\<exists>pre f post. n # rest = pre @ f # post
        \<and> (\<forall>m \<in> set pre. status_of p' m = Some SUCCESS) \<and> status_of p' f = Some FAILED
        \<and> (\<forall>m \<in> set post. map_of (jobs p') m = map_of (jobs p) m)"
      by (metis empty_iff empty_set)
    with out show ?thesis by simp
  next
    case (ok r j' ctx' w'')
    let ?p1 = "p\<lparr>jobs := AList.update n j' (jobs p), context := AList.update (result_key n) r ctx'\<rparr>"
    note st = execute_static(1)[OF ok(2)]
    from ok(3) Cons.prems(7) have run1: "run_jobs rest ?p1 w'' = (out, p', w')" by simp
    have k: "fst ` set (jobs ?p1) = fst ` set (jobs p)" using j by (simp add: key_update)
    have a1: "distinct rest" "set rest \<subseteq> fst ` set (jobs ?p1)"
      using Cons.prems(1,2) k by auto
    have a2: "deps_present (jobs ?p1)"
      using deps_present_update[OF j st Cons.prems(3)] by simp
    have a3: "deps_ready (insert n S) rest (jobs ?p1)"
      using rdy deps_ready_update[OF j st] by simp
    have nS: "n \<notin> S" using Cons.prems(6) by auto
    have sn: "status_of ?p1 n = Some SUCCESS"
      using execute_Return(1)[OF ok(2)] by (simp add: status_of_update)
    have a4: "\<forall>d \<in> insert n S. status_of ?p1 d = Some SUCCESS"
      using Cons.prems(5) nS sn by (auto simp: status_of_update)
    have a5: "insert n S \<inter> set rest = {}"
      using Cons.prems(1,6) by auto
    from Cons.IH[OF a1 a2 a3 a4 a5 run1]
    have ih: "(\<forall>u. out = Return u \<longrightarrow> (\<forall>m \<in> set rest. status_of p' m = Some SUCCESS))"
      "(\<forall>e. out = Raise e \<longrightarrow>
             (\<exists>pre f post. rest = pre @ f # post \<and> (\<forall>m \<in> set pre. status_of p' m = Some SUCCESS)
                \<and> status_of p' f = Some FAILED
                \<and> (\<forall>m \<in> set post. map_of (jobs p') m = map_of (jobs ?p1) m)))"
      by blast+
    from run_jobs_frame[OF a1(2) a2 run1] Cons.prems(1)
    have "map_of (jobs p') n = map_of (jobs ?p1) n" by simp
    then have n': "status_of p' n = Some SUCCESS" using sn by (simp add: status_of_def)
    have r1: "\<forall>m \<in> set (n # rest). status_of p' m = Some SUCCESS" if "out = Return u" for u
      using ih(1) that n' by simp
    have r2: "\<exists>pre f post. n # rest = pre @ f # post
        \<and> (\<forall>m \<in> set pre. status_of p' m = Some SUCCESS) \<and> status_of p' f = Some FAILED
        \<and> (\<forall>m \<in> set post. map_of (jobs p') m = map_of (jobs p) m)" if "out = Raise e" for e
    proof -
      from ih(2) that obtain pre f post where d: "rest = pre @ f # post"
        "\<forall>m \<in> set pre. status_of p' m = Some SUCCESS" "status_of p' f = Some FAILED"
        "\<forall>m \<in> set post. map_of (jobs p') m = map_of (jobs ?p1) m" by blast
      have "n \<notin> set post" using Cons.prems(1) d(1) by auto
      with d(4) have "\<forall>m \<in> set post. map_of (jobs p') m = map_of (jobs p) m"
        by (auto simp: update_conv')
      moreover have "n # rest = (n # pre) @ f # post" using d(1) by simp
      moreover have "\<forall>m \<in> set (n # pre). status_of p' m = Some SUCCESS" using d(2) n' by simp
      ultimately show ?thesis using d(3) by blast
    qed
    show ?thesis using r1 r2 by blast
  qed
qed

subsection \<open>Writes to the context\<close>

lemma run_jobs_append:
  "run_jobs (xs @ ys) p w =
     (case run_jobs xs p w of
        (Return u, p1, w1) \<Rightarrow> run_jobs ys p1 w1
      | (Raise e, p1, w1) \<Rightarrow> (Raise e, p1, w1))"
proof (induction xs arbitrary: p w)
  case Nil
  then show ?case by simp
next
  case (Cons x xs)
  show ?case
  proof (cases "map_of (jobs p) x")
    case None
    then show ?thesis by simp
  next
    case (Some j)
    show ?thesis
    proof (cases "can_run (jobs p) (depends_on j)")
      case (Raise e)
      with Some show ?thesis by simp
    next
      case (Return b)
      show ?thesis
      proof (cases b)
        case False
        with Some Return Cons.IH show ?thesis by simp
      next
        case True
        obtain out j' ctx' w' where ex: "execute j (context p) w = (out, j', ctx', w')"
          by (metis prod_cases4)
        show ?thesis
        proof (cases out)
          case (Return r)
          with Some \<open>can_run (jobs p) (depends_on j) = Return b\<close> True ex Cons.IH
          show ?thesis by simp
        next
          case (Raise e)
          with Some \<open>can_run (jobs p) (depends_on j) = Return b\<close> True ex
          show ?thesis by simp
        qed
      qed
    qed
  qed
qed

lemma run_jobs_single:
  assumes "run_jobs [x] p w = (Return u, pm, wm)"
  shows "\<exists>jm. map_of (jobs pm) x = Some jm
           \<and> (status jm = SKIPPED
               \<or> (status jm = SUCCESS \<and> map_of (context pm) (result_key x) = Some (result jm)))"
proof -
  from assms obtain j where j: "map_of (jobs p) x = Some j"
    by (cases "map_of (jobs p) x") auto
  from assms j obtain b where b: "can_run (jobs p) (depends_on j) = Return b"
    by (cases "can_run (jobs p) (depends_on j)") auto
  show ?thesis
  proof (cases b)
    case False
    with assms j b have "pm = p\<lparr>jobs := AList.update x (j\<lparr>status := SKIPPED\<rparr>) (jobs p)\<rparr>"
      by simp
    then show ?thesis by (simp add: update_conv')
  next
    case True
    obtain out j' ctx' w' where ex: "execute j (context p) w = (out, j', ctx', w')"
      by (metis prod_cases4)
    with assms j b True obtain r where out: "out = Return r"
      by (cases out) auto
    with assms j b True ex have
      "pm = p\<lparr>jobs := AList.update x j' (jobs p), context := AList.update (result_key x) r ctx'\<rparr>"
      by simp
    moreover have "status j' = SUCCESS" "result j' = r"
      using execute_Return(1,2)[OF ex[unfolded out]] by simp_all
    ultimately show ?thesis by (simp add: update_conv')
  qed
qed

lemma run_jobs_through:
  assumes "run_jobs (pre @ [x]) p w = (Return u, pm, wm)"
  shows "\<exists>jm. map_of (jobs pm) x = Some jm
           \<and> (status jm = SKIPPED
               \<or> (status jm = SUCCESS \<and> map_of (context pm) (result_key x) = Some (result jm)))"
proof -
  obtain out1 p1 w1 where r1: "run_jobs pre p w = (out1, p1, w1)" by (metis prod_cases3)
  with assms have "\<exists>u1. out1 = Return u1"
    by (cases out1) (auto simp: run_jobs_append)
  with assms r1 have "run_jobs [x] p1 w1 = (Return u, pm, wm)"
    by (auto simp: run_jobs_append)
  then show ?thesis by (rule run_jobs_single)
qed

lemma result_key_inj: "result_key a = result_key b \<longleftrightarrow> a = b"
  by (simp add: result_key_def)

lemma fold_write_other:
  "x \<notin> set ns \<Longrightarrow> map_of (fold (write_result js) ns c) (result_key x) = map_of c (result_key x)"
proof (induction ns arbitrary: c)
  case Nil
  then show ?case by simp
next
  case (Cons n rest)
  then have "map_of (write_result js n c) (result_key x) = map_of c (result_key x)"
    by (auto simp: write_result_def update_conv' result_key_inj split: option.splits)
  with Cons show ?case by simp
qed

lemma fold_write_lookup:
  assumes "distinct ns" "x \<in> set ns" "map_of js x = Some j" "status j = SUCCESS"
  shows "map_of (fold (write_result js) ns c) (result_key x) = Some (result j)"
  using assms(1,2)
proof (induction ns arbitrary: c)
  case Nil
  then show ?case by simp
next
  case (Cons n rest)
  show ?case
  proof (cases "x = n")
    case True
    with Cons.prems have "x \<notin> set rest" by simp
    have "map_of (write_result js n c) (result_key x) = Some (result j)"
      using True assms(3,4) by (simp add: write_result_def update_conv')
    with fold_write_other[OF \<open>x \<notin> set rest\<close>, of js "write_result js n c"]
    show ?thesis by simp
  next
    case False
    with Cons show ?thesis by simp
  qed
qed

lemma run_jobs_writes:
  assumes "distinct ns" "set ns \<subseteq> fst ` set (jobs p)" "deps_present (jobs p)"
    and "callables_keep_context (jobs p)"
    and "run_jobs ns p w = (out, p', w')"
  shows "\<exists>done. (\<forall>u. out = Return u \<longrightarrow> done = ns)
    \<and> (\<forall>e. out = Raise e \<longrightarrow> (\<exists>f post. ns = done @ f # post \<and> status_of p' f = Some FAILED))
    \<and> context p' = fold (write_result (jobs p')) done (context p)
    \<and> (\<forall>x \<in> set done. \<exists>j'. map_of (jobs p') x = Some j'
          \<and> (status j' = SKIPPED
              \<or> (status j' = SUCCESS \<and> (\<exists>kwargs wc. fst (func j' kwargs wc) = Return (result j')))))"
  using assms
proof (induction ns arbitrary: p w)
  case Nil
  then have "out = Return ()" "context p' = context p" by simp_all
  then show ?case by (intro exI[of _ "[]"]) simp
next
  case (Cons n rest)
  from Cons.prems(2) obtain j where j: "map_of (jobs p) n = Some j"
    using key_lookup by fastforce
  with Cons.prems(3) have dj: "set (depends_on j) \<subseteq> fst ` set (jobs p)"
    by (auto simp: deps_present_def)
  have step: ?case
    if run1: "run_jobs rest (p\<lparr>jobs := AList.update n j1 (jobs p), context := c1\<rparr>) w1 = (out, p', w')"
      and st: "depends_on j1 = depends_on j" "func j1 = func j"
      and c1: "c1 = write_result [(n, j1)] n (context p)"
      and s1: "status j1 = SKIPPED
               \<or> (status j1 = SUCCESS \<and> (\<exists>kwargs wc. fst (func j1 kwargs wc) = Return (result j1)))"
    for j1 c1 w1
  proof -
    let ?p1 = "p\<lparr>jobs := AList.update n j1 (jobs p), context := c1\<rparr>"
    have k: "fst ` set (jobs ?p1) = fst ` set (jobs p)" using j by (simp add: key_update)
    have a1: "distinct rest" "set rest \<subseteq> fst ` set (jobs ?p1)"
      using Cons.prems(1,2) k by auto
    have a2: "deps_present (jobs ?p1)"
      using deps_present_update[OF j st(1) Cons.prems(3)] by simp
    have a3: "callables_keep_context (jobs ?p1)"
      unfolding callables_keep_context_def
    proof (intro allI impI)
      fix m j2 assume m: "map_of (jobs ?p1) m = Some j2"
      show "keeps_context (func j2)"
      proof (cases "m = n")
        case True
        with m have "j2 = j1" by (simp add: update_conv')
        with Cons.prems(4) j st(2) show ?thesis by (simp add: callables_keep_context_def)
      next
        case False
        with m have "map_of (jobs p) m = Some j2" by (simp add: update_conv')
        with Cons.prems(4) show ?thesis unfolding callables_keep_context_def by blast
      qed
    qed
    from Cons.IH[OF a1 a2 a3 run1]
    obtain done1 where ih0: "(\<forall>u. out = Return u \<longrightarrow> done1 = rest)
      \<and> (\<forall>e. out = Raise e \<longrightarrow> (\<exists>f post. rest = done1 @ f # post \<and> status_of p' f = Some FAILED))
      \<and> context p' = fold (write_result (jobs p')) done1 (context ?p1)
      \<and> (\<forall>x \<in> set done1. \<exists>j'. map_of (jobs p') x = Some j'
          \<and> (status j' = SKIPPED
              \<or> (status j' = SUCCESS \<and> (\<exists>kwargs wc. fst (func j' kwargs wc) = Return (result j')))))" ..
    have ih3: "context p' = fold (write_result (jobs p')) done1 c1"
      using ih0[THEN conjunct2, THEN conjunct2, THEN conjunct1] by simp
    note ih = ih0[THEN conjunct1] ih0[THEN conjunct2, THEN conjunct1] ih3
      ih0[THEN conjunct2, THEN conjunct2, THEN conjunct2]
    from run_jobs_frame[OF a1(2) a2 run1] Cons.prems(1)
    have n': "map_of (jobs p') n = Some j1" by (simp add: update_conv')
    then have "write_result (jobs p') n (context p) = c1"
      unfolding c1 by (simp add: write_result_def)
    with ih(3) have c: "context p' = fold (write_result (jobs p')) (n # done1) (context p)" by simp
    have r1: "\<forall>u. out = Return u \<longrightarrow> n # done1 = n # rest" using ih(1) by simp
    have r2: "\<forall>e. out = Raise e \<longrightarrow>
        (\<exists>f post. n # rest = (n # done1) @ f # post \<and> status_of p' f = Some FAILED)"
      using ih(2) by simp
    have r4: "\<forall>x \<in> set (n # done1). \<exists>j'. map_of (jobs p') x = Some j'
          \<and> (status j' = SKIPPED
              \<or> (status j' = SUCCESS \<and> (\<exists>kwargs wc. fst (func j' kwargs wc) = Return (result j'))))"
    proof
      fix x assume "x \<in> set (n # done1)"
      then consider "x = n" | "x \<in> set done1" by auto
      then show "\<exists>j'. map_of (jobs p') x = Some j'
          \<and> (status j' = SKIPPED
              \<or> (status j' = SUCCESS \<and> (\<exists>kwargs wc. fst (func j' kwargs wc) = Return (result j'))))"
      proof cases
        case 1
        show ?thesis unfolding 1 by (rule exI[of _ j1]) (intro conjI n' s1)
      next
        case 2
        with ih(4) show ?thesis by (rule bspec)
      qed
    qed
    show ?thesis
      by (rule exI[of _ "n # done1"]) (intro conjI r1 r2 c r4)
  qed
  from j dj show ?case
  proof (cases rule: run_jobs_Cons_cases[where rest = rest and w = w])
    case skip
    with Cons.prems(5) have
      "run_jobs rest (p\<lparr>jobs := AList.update n (j\<lparr>status := SKIPPED\<rparr>) (jobs p), context := context p\<rparr>) w
         = (out, p', w')" by simp
    from step[OF this] show ?thesis by (simp add: write_result_def)
  next
    case (fail e' j' ctx' w'')
    with Cons.prems(5) have p': "p' = p\<lparr>jobs := AList.update n j' (jobs p), context := ctx'\<rparr>"
      and out: "out = Raise e'" by simp_all
    from Cons.prems(4) j have "keeps_context (func j)" by (simp add: callables_keep_context_def)
    then have "fst (snd (func j (execution_params j (context p)) (snd (datetime_now w))))
        = context p"
      by (simp add: keeps_context_def context_of_execution_params)
    with execute_Raise(6)[OF fail(2)] have "ctx' = context p" by auto
    then have c: "context p' = fold (write_result (jobs p')) [] (context p)" by (simp add: p')
    have f: "status_of p' n = Some FAILED"
      unfolding p' using execute_Raise(1)[OF fail(2)] by (simp add: status_of_update)
    have r2: "\<forall>e. out = Raise e \<longrightarrow>
        (\<exists>f post. n # rest = [] @ f # post \<and> status_of p' f = Some FAILED)"
      using f by simp
    have r1: "\<forall>u. out = Return u \<longrightarrow> [] = n # rest" using out by simp
    show ?thesis
      by (rule exI[of _ "[]"]) (intro conjI r1 r2 c, simp)
  next
    case (ok r j' ctx' w'')
    from ok(3) Cons.prems(5) have run1:
      "run_jobs rest (p\<lparr>jobs := AList.update n j' (jobs p),
          context := AList.update (result_key n) r ctx'\<rparr>) w'' = (out, p', w')" by simp
    from Cons.prems(4) j have "keeps_context (func j)" by (simp add: callables_keep_context_def)
    then have "fst (snd (func j (execution_params j (context p)) (snd (datetime_now w))))
        = context p"
      by (simp add: keeps_context_def context_of_execution_params)
    with execute_Return(6)[OF ok(2)] have "ctx' = context p" by auto
    then have c1: "AList.update (result_key n) r ctx' = write_result [(n, j')] n (context p)"
      using execute_Return(1,2)[OF ok(2)] by (simp add: write_result_def)
    from execute_Return(6)[OF ok(2)] obtain w2 where
      "func j (execution_params j (context p)) (snd (datetime_now w)) = (Return r, ctx', w2)" ..
    then have "fst (func j' (execution_params j (context p)) (snd (datetime_now w)))
        = Return (result j')"
      using execute_static(2)[OF ok(2)] execute_Return(2)[OF ok(2)] by simp
    then have "\<exists>kwargs wc. fst (func j' kwargs wc) = Return (result j')" by blast
    with execute_Return(1)[OF ok(2)]
    have s1: "status j' = SKIPPED
               \<or> (status j' = SUCCESS \<and> (\<exists>kwargs wc. fst (func j' kwargs wc) = Return (result j')))"
      by simp
    from step[OF run1 execute_static(1,2)[OF ok(2)] c1 s1] show ?thesis .
  qed
qed

subsection \<open>The run as a whole\<close>

lemma jobs_merge_initial [simp]: "jobs (merge_initial ic p) = jobs p"
  by (simp add: merge_initial_def split: option.splits)

lemma get_execution_order_merge [simp]:
  "get_execution_order n (merge_initial ic p) = get_execution_order n p"
  by (simp add: get_execution_order_def)

lemma status_of_merge [simp]: "status_of (merge_initial ic p) = status_of p"
  by (simp add: status_of_def fun_eq_iff)


lemma run_order_return:
  "get_execution_order n p = Some (Return order) \<Longrightarrow>
   run n p ic w =
     (case run_jobs order (merge_initial ic p) w of
        (Raise e, p2, w2) \<Rightarrow> Some (Raise e, p2, w2)
      | (Return u, p2, w2) \<Rightarrow> Some (Return (context p2), p2, w2))"
  by (simp add: run_def)



lemma run_jobs_total_ready:
  assumes g: "get_execution_order m p = Some (Return order)"
    and pend: "all_pending (jobs p)"
  obtains out p' w' where "run_jobs order (merge_initial ic p) w = (out, p', w')"
    and "\<forall>x. status_of p' x \<noteq> Some SKIPPED"
    and "\<And>u. out = Return u \<Longrightarrow> \<forall>x \<in> set order. status_of p' x = Some SUCCESS"
    and "\<And>e. out = Raise e \<Longrightarrow> \<exists>pre f post. order = pre @ f # post
               \<and> (\<forall>x \<in> set pre. status_of p' x = Some SUCCESS)
               \<and> status_of p' f = Some FAILED
               \<and> (\<forall>x d. (x \<in> set pre \<or> x = f) \<and> (d, x) \<in> dep_edges (jobs p)
                      \<longrightarrow> status_of p' d = Some SUCCESS)
               \<and> (\<forall>x \<in> set post. map_of (jobs p') x = map_of (jobs p) x)
               \<and> (\<forall>x. (f, x) \<in> (dep_edges (jobs p))\<^sup>+ \<longrightarrow> x \<in> set post)"
proof -
  let ?p1 = "merge_initial ic p"
  note o = get_execution_order_return[OF g]
  obtain out p' w' where r: "run_jobs order ?p1 w = (out, p', w')" by (metis prod_cases3)
  have a2: "set order \<subseteq> fst ` set (jobs ?p1)" using o(2) by simp
  have a3: "deps_present (jobs ?p1)" using o(5) by simp
  have direct: "before order d j" if "(d, j) \<in> dep_edges (jobs p)" for d j
    by (rule o(3)) (use that in \<open>rule r_into_trancl'\<close>)
  have "deps_ready {} order (jobs p)"
    by (rule deps_ready_order[OF o(1)]) (rule direct)
  then have a4: "deps_ready {} order (jobs ?p1)" by simp
  have e1: "\<forall>d \<in> {}. status_of ?p1 d = Some SUCCESS" and e2: "{} \<inter> set order = {}"
    by simp_all
  from run_jobs_ready[OF o(1) a2 a3 a4 e1 e2 r]
  have res: "\<forall>u. out = Return u \<longrightarrow> (\<forall>m \<in> set order. status_of p' m = Some SUCCESS)"
    "\<forall>e. out = Raise e \<longrightarrow>
       (\<exists>pre f post. order = pre @ f # post \<and> (\<forall>m \<in> set pre. status_of p' m = Some SUCCESS)
          \<and> status_of p' f = Some FAILED
          \<and> (\<forall>m \<in> set post. map_of (jobs p') m = map_of (jobs ?p1) m))"
    by simp_all
  from run_jobs_frame[OF a2 a3 r]
  have "map fst (jobs p') = map fst (jobs ?p1)" by (rule conjunct1)
  then have keys: "map fst (jobs p') = map fst (jobs p)" by simp
  have nokey: "status_of p' x = None" if "x \<notin> set order" for x
  proof -
    have "fst ` set (jobs p') = set (map fst (jobs p))" unfolding keys[symmetric] by simp
    with that o(2) have "x \<notin> fst ` set (jobs p')" by simp
    then show ?thesis by (simp add: status_of_def map_of_eq_None_iff)
  qed
  have pending: "status_of p x = Some PENDING" if "x \<in> set order" for x
  proof -
    from that o(2) have "x \<in> fst ` set (jobs p)" by simp
    from key_lookup[OF this] obtain j where "map_of (jobs p) x = Some j" ..
    with pend show ?thesis by (simp add: status_of_def all_pending_def)
  qed
  have raise: "\<exists>pre f post. order = pre @ f # post
               \<and> (\<forall>x \<in> set pre. status_of p' x = Some SUCCESS)
               \<and> status_of p' f = Some FAILED
               \<and> (\<forall>x d. (x \<in> set pre \<or> x = f) \<and> (d, x) \<in> dep_edges (jobs p)
                      \<longrightarrow> status_of p' d = Some SUCCESS)
               \<and> (\<forall>x \<in> set post. map_of (jobs p') x = map_of (jobs p) x)
               \<and> (\<forall>x. (f, x) \<in> (dep_edges (jobs p))\<^sup>+ \<longrightarrow> x \<in> set post)"
    if "out = Raise e" for e
  proof -
    from res(2) that obtain pre f post where d: "order = pre @ f # post"
      "\<forall>m \<in> set pre. status_of p' m = Some SUCCESS" "status_of p' f = Some FAILED"
      "\<forall>m \<in> set post. map_of (jobs p') m = map_of (jobs ?p1) m" by blast
    have dist: "distinct (pre @ f # post)" using o(1) d(1) by simp
    have b1: "status_of p' dd = Some SUCCESS"
      if "x \<in> set pre \<or> x = f" "(dd, x) \<in> dep_edges (jobs p)" for x dd
    proof -
      from direct[OF that(2)] have "before (pre @ f # post) dd x" using d(1) by simp
      from before_split(1)[OF dist this that(1)] d(2) show ?thesis by simp
    qed
    have b2: "x \<in> set post" if "(f, x) \<in> (dep_edges (jobs p))\<^sup>+" for x
    proof -
      from o(3)[OF that] have "before (pre @ f # post) f x" using d(1) by simp
      from before_split(2)[OF dist this] show ?thesis by simp
    qed
    have d4: "\<forall>x \<in> set post. map_of (jobs p') x = map_of (jobs p) x" using d(4) by simp
    have b1': "\<forall>x dd. (x \<in> set pre \<or> x = f) \<and> (dd, x) \<in> dep_edges (jobs p)
                      \<longrightarrow> status_of p' dd = Some SUCCESS" using b1 by blast
    have b2': "\<forall>x. (f, x) \<in> (dep_edges (jobs p))\<^sup>+ \<longrightarrow> x \<in> set post" using b2 by blast
    show ?thesis
      by (rule exI[of _ pre], rule exI[of _ f], rule exI[of _ post]) (intro conjI d(1,2,3) d4 b1' b2')
  qed
  have noskip: "status_of p' x \<noteq> Some SKIPPED" for x
  proof (cases "x \<in> set order")
    case False
    then show ?thesis by (simp add: nokey)
  next
    case True
    show ?thesis
    proof (cases out)
      case (Return u)
      with res(1) True show ?thesis by simp
    next
      case (Raise e)
      from raise[OF this] obtain pre f post where d: "order = pre @ f # post"
        "\<forall>x \<in> set pre. status_of p' x = Some SUCCESS" "status_of p' f = Some FAILED"
        "\<forall>x \<in> set post. map_of (jobs p') x = map_of (jobs p) x" by blast
      from True d(1) consider "x \<in> set pre" | "x = f" | "x \<in> set post" by auto
      then show ?thesis
      proof cases
        case 1 with d(2) show ?thesis by simp
      next
        case 2 with d(3) show ?thesis by simp
      next
        case 3
        with d(4) have "status_of p' x = status_of p x" by (simp add: status_of_def)
        with pending[OF True] show ?thesis by simp
      qed
    qed
  qed
  show ?thesis
  proof (rule that[OF r])
    show "\<forall>x. status_of p' x \<noteq> Some SKIPPED" using noskip by blast
    show "\<And>u. out = Return u \<Longrightarrow> \<forall>x \<in> set order. status_of p' x = Some SUCCESS"
      using res(1) by blast
    show "\<And>e. out = Raise e \<Longrightarrow> \<exists>pre f post. order = pre @ f # post
               \<and> (\<forall>x \<in> set pre. status_of p' x = Some SUCCESS)
               \<and> status_of p' f = Some FAILED
               \<and> (\<forall>x d. (x \<in> set pre \<or> x = f) \<and> (d, x) \<in> dep_edges (jobs p)
                      \<longrightarrow> status_of p' d = Some SUCCESS)
               \<and> (\<forall>x \<in> set post. map_of (jobs p') x = map_of (jobs p) x)
               \<and> (\<forall>x. (f, x) \<in> (dep_edges (jobs p))\<^sup>+ \<longrightarrow> x \<in> set post)"
      by (rule raise)
  qed
qed

subsection \<open>The status summary\<close>

lemma summary_counts:
  "fst (fold summary_step js acc) s = fst acc s + length (filter (\<lambda>j. status j = s) js)"
  by (induction js arbitrary: acc) (auto simp: summary_step_def split: prod.splits)

lemma status_counts_summary:
  "status_counts (get_status_summary p)
     = map (\<lambda>s. (JobStatus_value s, length (filter (\<lambda>j. status j = s) (map snd (jobs p))))) all_JobStatus"
proof -
  obtain statuses total_d where
    f: "fold summary_step (map snd (jobs p)) (\<lambda>s. 0, Double 0 0) = (statuses, total_d)"
    by (cases "fold summary_step (map snd (jobs p)) (\<lambda>s. 0, Double 0 0)")
  have "statuses s = length (filter (\<lambda>j. status j = s) (map snd (jobs p)))" for s
    using summary_counts[of "map snd (jobs p)" "(\<lambda>s. 0, Double 0 0)" s] unfolding f by simp
  then have "statuses = (\<lambda>s. length (filter (\<lambda>j. status j = s) (map snd (jobs p))))"
    by (rule ext)
  then show ?thesis
    unfolding get_status_summary_def f by simp
qed

lemma total_jobs_summary: "total_jobs (get_status_summary p) = length (jobs p)"
  by (simp add: get_status_summary_def split: prod.splits)

lemma s_jobs_summary:
  "map (\<lambda>(n, s). (n, js_status s)) (s_jobs (get_status_summary p))
     = map (\<lambda>(n, j). (n, JobStatus_value (status j))) (jobs p)"
  by (simp add: get_status_summary_def split: prod.splits)






subsection \<open>Running all pipelines\<close>



section \<open>The example pipelines\<close>




lemma failing_pipeline_acyclic: "acyclic (dep_edges (jobs failing_pipeline))"
  by (rule acyclic_by_rank[where f = "\<lambda>s. if s = ''load'' then 0 else if s = ''process'' then 1 else 2"])
     (auto simp: failing_pipeline_def Job_def split: if_splits)

lemma failing_pipeline_deps: "deps_present (jobs failing_pipeline)"
  by (auto simp: deps_present_def failing_pipeline_def Job_def split: if_splits)

lemma failing_pipeline_pending: "all_pending (jobs failing_pipeline)"
  by (auto simp: all_pending_def failing_pipeline_def Job_def split: if_splits)

lemma failing_pipeline_order:
  "get_execution_order 3 failing_pipeline = Some (Return [''load'', ''process'', ''save''])"
  by (simp add: get_execution_order_def failing_pipeline_def Job_def numeral_3_eq_3)

lemma failing_pipeline_run:
  "map_option (\<lambda>(out, p', w'). (out, map (\<lambda>(n, j). (n, status j, error j, start_time j, end_time j)) (jobs p'), context p', reads w'))
     (run 3 failing_pipeline None world0)
   = Some (Raise (PyException ''RuntimeError'' ''boom''),
           [(''load'', SUCCESS, None, Some 0, Some 1000),
            (''process'', FAILED, Some ''boom'', Some 2000, Some 3000),
            (''save'', PENDING, None, None, None)],
           [(''job_load_result'', VInt 5)], 4)"
  by (simp add: run_order_return failing_pipeline_order)
     (simp add: failing_pipeline_def Job_def merge_initial_def execute_def execute_start_def
        datetime_now_def execution_params_def returns_def raises_def context_of_def world0_def
        result_key_def Let_def)









lemma load_double_order:
  "get_execution_order 2 load_double = Some (Return [''load'', ''double''])"
  by (simp add: get_execution_order_def load_double_def Job_def numeral_2_eq_2)

lemma load_double_run:
  "map_option (\<lambda>(out, p', w'). (out, map (\<lambda>(n, j). (n, status j, result j)) (jobs p'), context p'))
     (run 2 load_double None world0)
   = Some (Return [(''job_load_result'', VDict [(''x'', VInt 1)]), (''job_double_result'', VInt 2)],
           [(''load'', SUCCESS, VDict [(''x'', VInt 1)]), (''double'', SUCCESS, VInt 2)],
           [(''job_load_result'', VDict [(''x'', VInt 1)]), (''job_double_result'', VInt 2)])"
  by (simp add: run_order_return load_double_order)
     (simp add: load_double_def Job_def merge_initial_def execute_def execute_start_def
        datetime_now_def execution_params_def returns_def double_fn_def context_of_def world0_def
        result_key_def Let_def)

lemma load_double_keeps: "callables_keep_context (jobs load_double)"
  by (auto simp: callables_keep_context_def keeps_context_def load_double_def Job_def
      returns_def double_fn_def split: if_splits)



subsection \<open>Evaluating the float operations\<close>















section \<open>The claims\<close>

subsection \<open>The execution order (C1, C3, C7)\<close>









subsection \<open>Runs (C2, C4, C6)\<close>

text \<open>
  Claim C2. Take a pipeline whose jobs are all \<open>PENDING\<close>, whose dependency graph is
  acyclic and whose dependencies are all present. Then \<open>run\<close> returns or raises, and
  afterwards no job is \<open>SKIPPED\<close>. If it returns, every job is \<open>SUCCESS\<close>. If it
  raises, the execution order splits into the jobs before the failing one (all
  \<open>SUCCESS\<close>), the failing job \<open>f\<close> (\<open>FAILED\<close>) and the jobs after it, which are
  exactly as they were before the run; every job that was reached has all its
  dependencies \<open>SUCCESS\<close>, and every job that depends on \<open>f\<close>, directly or
  transitively, is among the jobs never reached.
\<close>

theorem run_never_skips:
  assumes "all_pending (jobs p)" and "acyclic (dep_edges (jobs p))" and "deps_present (jobs p)"
  shows "\<exists>n order. \<forall>m\<ge>n. get_execution_order m p = Some (Return order) \<and>
      (\<exists>out p' w'. run m p ic w = Some (out, p', w')
         \<and> (\<forall>x. status_of p' x \<noteq> Some SKIPPED)
         \<and> (\<forall>u. out = Return u \<longrightarrow> (\<forall>x \<in> set order. status_of p' x = Some SUCCESS))
         \<and> (\<forall>e. out = Raise e \<longrightarrow> (\<exists>pre f post. order = pre @ f # post
               \<and> (\<forall>x \<in> set pre. status_of p' x = Some SUCCESS)
               \<and> status_of p' f = Some FAILED
               \<and> (\<forall>x d. (x \<in> set pre \<or> x = f) \<and> (d, x) \<in> dep_edges (jobs p)
                      \<longrightarrow> status_of p' d = Some SUCCESS)
               \<and> (\<forall>x \<in> set post. map_of (jobs p') x = map_of (jobs p) x)
               \<and> (\<forall>x. (f, x) \<in> (dep_edges (jobs p))\<^sup>+ \<longrightarrow> x \<in> set post))))"
proof -
  from get_execution_order_total[OF assms(2,3)] obtain n order
    where n: "\<forall>m\<ge>n. get_execution_order m p = Some (Return order)" by blast
  have "get_execution_order m p = Some (Return order) \<and>
      (\<exists>out p' w'. run m p ic w = Some (out, p', w')
         \<and> (\<forall>x. status_of p' x \<noteq> Some SKIPPED)
         \<and> (\<forall>u. out = Return u \<longrightarrow> (\<forall>x \<in> set order. status_of p' x = Some SUCCESS))
         \<and> (\<forall>e. out = Raise e \<longrightarrow> (\<exists>pre f post. order = pre @ f # post
               \<and> (\<forall>x \<in> set pre. status_of p' x = Some SUCCESS)
               \<and> status_of p' f = Some FAILED
               \<and> (\<forall>x d. (x \<in> set pre \<or> x = f) \<and> (d, x) \<in> dep_edges (jobs p)
                      \<longrightarrow> status_of p' d = Some SUCCESS)
               \<and> (\<forall>x \<in> set post. map_of (jobs p') x = map_of (jobs p) x)
               \<and> (\<forall>x. (f, x) \<in> (dep_edges (jobs p))\<^sup>+ \<longrightarrow> x \<in> set post))))"
    if m: "m \<ge> n" for m
  proof -
    from n m have g: "get_execution_order m p = Some (Return order)" by simp
    from run_jobs_total_ready[OF g assms(1), of ic w] obtain out0 p' w' where
      r: "run_jobs order (merge_initial ic p) w = (out0, p', w')"
      and s: "\<forall>x. status_of p' x \<noteq> Some SKIPPED"
      and ret: "\<And>u. out0 = Return u \<Longrightarrow> \<forall>x \<in> set order. status_of p' x = Some SUCCESS"
      and rai: "\<And>e. out0 = Raise e \<Longrightarrow> \<exists>pre f post. order = pre @ f # post
               \<and> (\<forall>x \<in> set pre. status_of p' x = Some SUCCESS)
               \<and> status_of p' f = Some FAILED
               \<and> (\<forall>x d. (x \<in> set pre \<or> x = f) \<and> (d, x) \<in> dep_edges (jobs p)
                      \<longrightarrow> status_of p' d = Some SUCCESS)
               \<and> (\<forall>x \<in> set post. map_of (jobs p') x = map_of (jobs p) x)
               \<and> (\<forall>x. (f, x) \<in> (dep_edges (jobs p))\<^sup>+ \<longrightarrow> x \<in> set post)"
      by blast
    define out where "out = (case out0 of Return u \<Rightarrow> Return (context p') | Raise e \<Rightarrow> Raise e)"
    have run: "run m p ic w = Some (out, p', w')"
      using r g by (simp add: run_order_return out_def split: outcome.splits)
    have c1: "\<forall>u. out = Return u \<longrightarrow> (\<forall>x \<in> set order. status_of p' x = Some SUCCESS)"
    proof (intro allI impI)
      fix u assume "out = Return u"
      then obtain u0 where "out0 = Return u0" by (cases out0) (simp_all add: out_def)
      from ret[OF this] show "\<forall>x \<in> set order. status_of p' x = Some SUCCESS" .
    qed
    have c2: "\<forall>e. out = Raise e \<longrightarrow> (\<exists>pre f post. order = pre @ f # post
               \<and> (\<forall>x \<in> set pre. status_of p' x = Some SUCCESS)
               \<and> status_of p' f = Some FAILED
               \<and> (\<forall>x d. (x \<in> set pre \<or> x = f) \<and> (d, x) \<in> dep_edges (jobs p)
                      \<longrightarrow> status_of p' d = Some SUCCESS)
               \<and> (\<forall>x \<in> set post. map_of (jobs p') x = map_of (jobs p) x)
               \<and> (\<forall>x. (f, x) \<in> (dep_edges (jobs p))\<^sup>+ \<longrightarrow> x \<in> set post))"
    proof (intro allI impI)
      fix e assume "out = Raise e"
      then have "out0 = Raise e" by (cases out0) (simp_all add: out_def)
      from rai[OF this] show "\<exists>pre f post. order = pre @ f # post
               \<and> (\<forall>x \<in> set pre. status_of p' x = Some SUCCESS)
               \<and> status_of p' f = Some FAILED
               \<and> (\<forall>x d. (x \<in> set pre \<or> x = f) \<and> (d, x) \<in> dep_edges (jobs p)
                      \<longrightarrow> status_of p' d = Some SUCCESS)
               \<and> (\<forall>x \<in> set post. map_of (jobs p') x = map_of (jobs p) x)
               \<and> (\<forall>x. (f, x) \<in> (dep_edges (jobs p))\<^sup>+ \<longrightarrow> x \<in> set post)" .
    qed
    show ?thesis
      by (intro conjI g exI[of _ out] exI[of _ p'] exI[of _ w'] run s c1 c2)
  qed
  then have "\<forall>m\<ge>n. get_execution_order m p = Some (Return order) \<and>
      (\<exists>out p' w'. run m p ic w = Some (out, p', w')
         \<and> (\<forall>x. status_of p' x \<noteq> Some SKIPPED)
         \<and> (\<forall>u. out = Return u \<longrightarrow> (\<forall>x \<in> set order. status_of p' x = Some SUCCESS))
         \<and> (\<forall>e. out = Raise e \<longrightarrow> (\<exists>pre f post. order = pre @ f # post
               \<and> (\<forall>x \<in> set pre. status_of p' x = Some SUCCESS)
               \<and> status_of p' f = Some FAILED
               \<and> (\<forall>x d. (x \<in> set pre \<or> x = f) \<and> (d, x) \<in> dep_edges (jobs p)
                      \<longrightarrow> status_of p' d = Some SUCCESS)
               \<and> (\<forall>x \<in> set post. map_of (jobs p') x = map_of (jobs p) x)
               \<and> (\<forall>x. (f, x) \<in> (dep_edges (jobs p))\<^sup>+ \<longrightarrow> x \<in> set post))))"
    by (intro allI impI)
  then show ?thesis by (intro exI)
qed

theorem run_never_skips_witness:
  "all_pending (jobs failing_pipeline) \<and> acyclic (dep_edges (jobs failing_pipeline))
   \<and> deps_present (jobs failing_pipeline)
   \<and> (\<exists>n order. \<forall>m\<ge>n. get_execution_order m failing_pipeline = Some (Return order) \<and>
      (\<exists>out p' w'. run m failing_pipeline None world0 = Some (out, p', w')
         \<and> (\<forall>x. status_of p' x \<noteq> Some SKIPPED)
         \<and> (\<forall>u. out = Return u \<longrightarrow> (\<forall>x \<in> set order. status_of p' x = Some SUCCESS))
         \<and> (\<forall>e. out = Raise e \<longrightarrow> (\<exists>pre f post. order = pre @ f # post
               \<and> (\<forall>x \<in> set pre. status_of p' x = Some SUCCESS)
               \<and> status_of p' f = Some FAILED
               \<and> (\<forall>x d. (x \<in> set pre \<or> x = f) \<and> (d, x) \<in> dep_edges (jobs failing_pipeline)
                      \<longrightarrow> status_of p' d = Some SUCCESS)
               \<and> (\<forall>x \<in> set post. map_of (jobs p') x = map_of (jobs failing_pipeline) x)
               \<and> (\<forall>x. (f, x) \<in> (dep_edges (jobs failing_pipeline))\<^sup>+ \<longrightarrow> x \<in> set post)))))
   \<and> map_option (\<lambda>(out, p', w'). (out, map (\<lambda>(n, j). (n, status j)) (jobs p')))
         (run 3 failing_pipeline None world0)
       = Some (Raise (PyException ''RuntimeError'' ''boom''),
               [(''load'', SUCCESS), (''process'', FAILED), (''save'', PENDING)])"
proof -
  have r: "map_option (\<lambda>(out, p', w'). (out, map (\<lambda>(n, j). (n, status j)) (jobs p')))
         (run 3 failing_pipeline None world0)
       = Some (Raise (PyException ''RuntimeError'' ''boom''),
               [(''load'', SUCCESS), (''process'', FAILED), (''save'', PENDING)])"
    using failing_pipeline_run by (auto split: prod.splits)
  show ?thesis
    by (intro conjI failing_pipeline_pending failing_pipeline_acyclic failing_pipeline_deps r
        run_never_skips[OF failing_pipeline_pending failing_pipeline_acyclic failing_pipeline_deps])
qed



text \<open>
  Claim C6. Whatever the callables do: the loop of \<open>run\<close> on an order
  \<open>pre @ x # post\<close> is the loop on \<open>pre @ [x]\<close> followed by the loop on \<open>post\<close>,
  and when the loop on \<open>pre @ [x]\<close> has come through, the job \<open>x\<close> is \<open>SKIPPED\<close>, or
  it is \<open>SUCCESS\<close> and at that moment \<open>job_x_result\<close> holds its result: the write
  belongs to the one iteration for \<open>x\<close>, and the order has no job twice.

  Now take a run whose execution order was computed and whose callables hand the
  context back as they got it. The jobs the loop went through (all of the order when
  \<open>run\<close> returns, the jobs before the failing one when it raises) are each \<open>SKIPPED\<close> or
  \<open>SUCCESS\<close>; the final context is the context at the start of the loop with one write
  \<open>job_<name>_result := result\<close> for each of them that is \<open>SUCCESS\<close>, in execution order,
  and nothing else; each such job occurs once in that list and its key holds the value
  its callable returned. For the pipeline \<open>load\<close> (returns \<open>{"x": 1}\<close>), \<open>double\<close>
  (depends on \<open>load\<close>, returns twice \<open>x\<close>): \<open>run\<close> returns a context with
  \<open>job_double_result = 2\<close>, and the summary has \<open>total_jobs = 2\<close> and both jobs
  \<open>success\<close>.
\<close>

theorem results_written_once:
  "(callables_keep_context (jobs p) \<and> run n p ic w = Some (out, p', w')
      \<and> get_execution_order n p = Some (Return order)
    \<longrightarrow> (\<exists>done. distinct done
          \<and> (\<forall>c. out = Return c \<longrightarrow> done = order \<and> c = context p')
          \<and> (\<forall>e. out = Raise e \<longrightarrow> (\<exists>f post. order = done @ f # post \<and> status_of p' f = Some FAILED))
          \<and> context p' = fold (write_result (jobs p')) done (context (merge_initial ic p))
          \<and> (\<forall>x \<in> set done. \<exists>j'. map_of (jobs p') x = Some j'
                \<and> (status j' = SKIPPED
                    \<or> (status j' = SUCCESS
                        \<and> (\<exists>kwargs wc. fst (func j' kwargs wc) = Return (result j'))
                        \<and> map_of (context p') (result_key x) = Some (result j'))))))
   \<and> (\<exists>ctx p' w'. run 2 load_double None world0 = Some (Return ctx, p', w')
          \<and> map_of ctx ''job_load_result'' = Some (VDict [(''x'', VInt 1)])
          \<and> map_of ctx ''job_double_result'' = Some (VInt 2)
          \<and> total_jobs (get_status_summary p') = 2
          \<and> status_counts (get_status_summary p')
               = [(''pending'', 0), (''running'', 0), (''success'', 2), (''failed'', 0), (''skipped'', 0)]
          \<and> map (\<lambda>(n, s). (n, js_status s)) (s_jobs (get_status_summary p'))
               = [(''load'', ''success''), (''double'', ''success'')])
   \<and> (\<forall>pre x post s v.
         run_jobs (pre @ x # post) s v =
           (case run_jobs (pre @ [x]) s v of
              (Return u, sm, vm) \<Rightarrow> run_jobs post sm vm
            | (Raise e, sm, vm) \<Rightarrow> (Raise e, sm, vm)))
   \<and> (\<forall>pre x s v u sm vm. run_jobs (pre @ [x]) s v = (Return u, sm, vm) \<longrightarrow>
         (\<exists>jm. map_of (jobs sm) x = Some jm
            \<and> (status jm = SKIPPED
                \<or> (status jm = SUCCESS
                    \<and> map_of (context sm) (result_key x) = Some (result jm)))))"
proof (intro conjI impI)
  assume a: "callables_keep_context (jobs p) \<and> run n p ic w = Some (out, p', w')
      \<and> get_execution_order n p = Some (Return order)"
  let ?p1 = "merge_initial ic p"
  from a have g: "get_execution_order n p = Some (Return order)" by simp
  note o = get_execution_order_return[OF g]
  obtain out0 where r: "run_jobs order ?p1 w = (out0, p', w')"
    and out: "out = (case out0 of Return u \<Rightarrow> Return (context p') | Raise e \<Rightarrow> Raise e)"
    using a g by (auto simp: run_order_return split: prod.splits outcome.splits)
  have a2: "set order \<subseteq> fst ` set (jobs ?p1)" using o(2) by simp
  have a3: "deps_present (jobs ?p1)" using o(5) by simp
  have a4: "callables_keep_context (jobs ?p1)" using a by simp
  from run_jobs_writes[OF o(1) a2 a3 a4 r]
  obtain done0 where w0: "(\<forall>u. out0 = Return u \<longrightarrow> done0 = order)
    \<and> (\<forall>e. out0 = Raise e \<longrightarrow> (\<exists>f post. order = done0 @ f # post \<and> status_of p' f = Some FAILED))
    \<and> context p' = fold (write_result (jobs p')) done0 (context ?p1)
    \<and> (\<forall>x \<in> set done0. \<exists>j'. map_of (jobs p') x = Some j'
          \<and> (status j' = SKIPPED
              \<or> (status j' = SUCCESS \<and> (\<exists>kwargs wc. fst (func j' kwargs wc) = Return (result j')))))" ..
  note w = w0[THEN conjunct1] w0[THEN conjunct2, THEN conjunct1]
      w0[THEN conjunct2, THEN conjunct2, THEN conjunct1]
      w0[THEN conjunct2, THEN conjunct2, THEN conjunct2]
  have pre: "\<exists>zs. order = done0 @ zs"
  proof (cases out0)
    case (Return u)
    with w(1) show ?thesis by simp
  next
    case (Raise e)
    with w(2) show ?thesis by auto
  qed
  with o(1) have d: "distinct done0" by auto
  have c1: "\<forall>c. out = Return c \<longrightarrow> done0 = order \<and> c = context p'"
    using w(1) out by (cases out0) simp_all
  have c2: "\<forall>e. out = Raise e \<longrightarrow> (\<exists>f post. order = done0 @ f # post \<and> status_of p' f = Some FAILED)"
    using w(2) out by (cases out0) simp_all
  have c4: "\<forall>x \<in> set done0. \<exists>j'. map_of (jobs p') x = Some j'
                \<and> (status j' = SKIPPED
                    \<or> (status j' = SUCCESS
                        \<and> (\<exists>kwargs wc. fst (func j' kwargs wc) = Return (result j'))
                        \<and> map_of (context p') (result_key x) = Some (result j')))"
  proof
    fix x assume x: "x \<in> set done0"
    with w(4) obtain j' where j': "map_of (jobs p') x = Some j'"
      "status j' = SKIPPED
         \<or> (status j' = SUCCESS \<and> (\<exists>kwargs wc. fst (func j' kwargs wc) = Return (result j')))"
      by blast
    have "map_of (context p') (result_key x) = Some (result j')" if "status j' = SUCCESS"
      unfolding w(3) by (rule fold_write_lookup[OF d x j'(1) that])
    with j' show "\<exists>j'. map_of (jobs p') x = Some j'
                \<and> (status j' = SKIPPED
                    \<or> (status j' = SUCCESS
                        \<and> (\<exists>kwargs wc. fst (func j' kwargs wc) = Return (result j'))
                        \<and> map_of (context p') (result_key x) = Some (result j')))"
      by blast
  qed
  show "\<exists>done. distinct done
          \<and> (\<forall>c. out = Return c \<longrightarrow> done = order \<and> c = context p')
          \<and> (\<forall>e. out = Raise e \<longrightarrow> (\<exists>f post. order = done @ f # post \<and> status_of p' f = Some FAILED))
          \<and> context p' = fold (write_result (jobs p')) done (context (merge_initial ic p))
          \<and> (\<forall>x \<in> set done. \<exists>j'. map_of (jobs p') x = Some j'
                \<and> (status j' = SKIPPED
                    \<or> (status j' = SUCCESS
                        \<and> (\<exists>kwargs wc. fst (func j' kwargs wc) = Return (result j'))
                        \<and> map_of (context p') (result_key x) = Some (result j'))))"
    by (rule exI[of _ done0]) (intro conjI d c1 c2 w(3) c4)
next
  from load_double_run obtain p' w' where
    r: "run 2 load_double None world0
          = Some (Return [(''job_load_result'', VDict [(''x'', VInt 1)]), (''job_double_result'', VInt 2)],
                  p', w')"
    and j: "map (\<lambda>(n, j). (n, status j, result j)) (jobs p')
          = [(''load'', SUCCESS, VDict [(''x'', VInt 1)]), (''double'', SUCCESS, VInt 2)]"
    by (auto split: prod.splits)
  from j obtain j1 j2 where js: "jobs p' = [(''load'', j1), (''double'', j2)]"
    "status j1 = SUCCESS" "status j2 = SUCCESS"
    by (auto simp: map_eq_Cons_conv)
  have t: "total_jobs (get_status_summary p') = 2"
    by (simp add: total_jobs_summary js)
  have c: "status_counts (get_status_summary p')
       = [(''pending'', 0), (''running'', 0), (''success'', 2), (''failed'', 0), (''skipped'', 0)]"
    by (simp add: status_counts_summary js all_JobStatus_def)
  have s: "map (\<lambda>(n, s). (n, js_status s)) (s_jobs (get_status_summary p'))
       = [(''load'', ''success''), (''double'', ''success'')]"
    by (simp add: s_jobs_summary js)
  show "\<exists>ctx p' w'. run 2 load_double None world0 = Some (Return ctx, p', w')
          \<and> map_of ctx ''job_load_result'' = Some (VDict [(''x'', VInt 1)])
          \<and> map_of ctx ''job_double_result'' = Some (VInt 2)
          \<and> total_jobs (get_status_summary p') = 2
          \<and> status_counts (get_status_summary p')
               = [(''pending'', 0), (''running'', 0), (''success'', 2), (''failed'', 0), (''skipped'', 0)]
          \<and> map (\<lambda>(n, s). (n, js_status s)) (s_jobs (get_status_summary p'))
               = [(''load'', ''success''), (''double'', ''success'')]"
    by (rule exI[of _ "[(''job_load_result'', VDict [(''x'', VInt 1)]), (''job_double_result'', VInt 2)]"],
        rule exI[of _ p'], rule exI[of _ w']) (simp add: r t c s)
next
  show "\<forall>pre x post s v.
         run_jobs (pre @ x # post) s v =
           (case run_jobs (pre @ [x]) s v of
              (Return u, sm, vm) \<Rightarrow> run_jobs post sm vm
            | (Raise e, sm, vm) \<Rightarrow> (Raise e, sm, vm))"
  proof (intro allI)
    fix pre x post s v
    show "run_jobs (pre @ x # post) s v =
           (case run_jobs (pre @ [x]) s v of
              (Return u, sm, vm) \<Rightarrow> run_jobs post sm vm
            | (Raise e, sm, vm) \<Rightarrow> (Raise e, sm, vm))"
      using run_jobs_append[of "pre @ [x]" post s v] by simp
  qed
next
  show "\<forall>pre x s v u sm vm. run_jobs (pre @ [x]) s v = (Return u, sm, vm) \<longrightarrow>
         (\<exists>jm. map_of (jobs sm) x = Some jm
            \<and> (status jm = SKIPPED
                \<or> (status jm = SUCCESS
                    \<and> map_of (context sm) (result_key x) = Some (result jm))))"
    by (intro allI impI) (rule run_jobs_through)
qed

theorem results_written_once_witness:
  "callables_keep_context (jobs load_double)
   \<and> get_execution_order 2 load_double = Some (Return [''load'', ''double''])
   \<and> (\<exists>ctx p' w'. run 2 load_double None world0 = Some (Return ctx, p', w')
          \<and> ctx = context p'
          \<and> context p' = fold (write_result (jobs p')) [''load'', ''double'']
                             (context (merge_initial None load_double))
          \<and> map_of ctx ''job_double_result'' = Some (VInt 2))"
proof -
  from load_double_run obtain p' w' where
    r: "run 2 load_double None world0
          = Some (Return [(''job_load_result'', VDict [(''x'', VInt 1)]), (''job_double_result'', VInt 2)],
                  p', w')"
    by (auto split: prod.splits)
  let ?ctx = "[(''job_load_result'', VDict [(''x'', VInt 1)]), (''job_double_result'', VInt 2)]"
  from results_written_once[of load_double 2 None world0 "Return ?ctx" p' w' "[''load'', ''double'']"]
    load_double_keeps r load_double_order
  obtain done0 where d: "\<forall>c. Return ?ctx = Return c \<longrightarrow> done0 = [''load'', ''double''] \<and> c = context p'"
    "context p' = fold (write_result (jobs p')) done0 (context (merge_initial None load_double))"
    by blast
  from d(1) have e: "done0 = [''load'', ''double'']" "?ctx = context p'" by simp_all
  have f: "context p' = fold (write_result (jobs p')) [''load'', ''double'']
                             (context (merge_initial None load_double))"
    using d(2) unfolding e(1) .
  have m: "map_of ?ctx ''job_double_result'' = Some (VInt 2)" by simp
  show ?thesis
    by (intro conjI load_double_keeps load_double_order exI[of _ ?ctx] exI[of _ p'] exI[of _ w']
        r e(2) f m)
qed

subsection \<open>The status summary (C9)\<close>




subsection \<open>The controller (C10)\<close>




end
